theory Spec2Isabelle
  imports Main
begin

section \<open>The abstract machine\<close>

text \<open>
  The container of \<^verbatim>\<open>vector.h\<close> is a template over an element type \<open>T\<close>. Its code
  separates raw storage from object lifetime, so the model keeps both apart as well:
  a heap of blocks handed out by \<^verbatim>\<open>operator new\<close>, each block a list of slots, each
  slot either raw storage or a constructed object with a value.

  A pointer \<^verbatim>\<open>T*\<close> is a block together with a slot index; \<open>(None, 0)\<close> is
  \<^verbatim>\<open>nullptr\<close>. \<^verbatim>\<open>size_t\<close> is 64 bits wide: values are naturals below \<open>2 ^ 64\<close>
  and the wrap-around is written out at every multiplication and increment of the source.
  Assertions are enabled (no \<^verbatim>\<open>NDEBUG\<close>): a failed \<^verbatim>\<open>assert\<close> aborts.
\<close>

type_synonym addr = nat

type_synonym ptr = "addr option \<times> nat"

datatype 'a cell = Raw | Live 'a

datatype exn = bad_alloc | elem_exn

datatype op_kind =
  Args_ctor | Value_init | Copy_ctor | Move_ctor | Copy_assign | Move_assign | Dtor

text \<open>
  Every operation of the element type that the container runs is recorded, with the value
  of the object it produced (for a destructor: the value destroyed).
\<close>

datatype 'a event = Done op_kind 'a | Failed op_kind

record 'a machine =
  heap :: "addr \<Rightarrow> 'a cell list option"
  next_addr :: addr
  trace :: "'a event list"

text \<open>
  How a call ends: it returns a result, it leaves by a C++ exception, it aborts
  (a failed assertion), or its behaviour is undefined (a read or write outside a block,
  the use of raw storage as an object, an invalid iterator range).
\<close>

datatype ('r, 's) outcome = Ret 'r 's | Thrown exn 's | Aborted | Undefined

text \<open>
  The template argument \<open>T\<close> and the global allocator. Each operation of \<open>T\<close> may
  throw, and may depend on everything the element type has done so far (the trace): a
  constructor result \<open>None\<close> is a throw. A move also says what is left in its source; an
  assignment says what is left in its target when it throws.
\<close>

record 'a env =
  sizeof_T :: nat
  is_nothrow_move_constructible :: bool
  is_copy_constructible :: bool
  value_init :: "'a event list \<Rightarrow> 'a option"
  copy_ctor :: "'a event list \<Rightarrow> 'a \<Rightarrow> 'a option"
  move_ctor :: "'a event list \<Rightarrow> 'a \<Rightarrow> 'a option \<times> 'a"
  copy_assign :: "'a event list \<Rightarrow> 'a \<Rightarrow> 'a \<Rightarrow> bool \<times> 'a"
  move_assign :: "'a event list \<Rightarrow> 'a \<Rightarrow> 'a \<Rightarrow> bool \<times> 'a \<times> 'a"
  new_ok :: "nat \<Rightarrow> nat \<Rightarrow> bool"

text \<open>A constructor call \<^verbatim>\<open>T(args...)\<close>: its kind and what it computes.\<close>

type_synonym 'a ctor_call = "op_kind \<times> ('a event list \<Rightarrow> 'a option)"

definition size_t_mod :: "nat \<Rightarrow> nat" where
  "size_t_mod n = n mod 2 ^ 64"

subsection \<open>Sequencing, handlers and unwinding\<close>

fun and_then :: "('r, 's) outcome \<Rightarrow> ('r \<Rightarrow> 's \<Rightarrow> ('q, 's) outcome) \<Rightarrow> ('q, 's) outcome" where
  "and_then (Ret r s) f = f r s"
| "and_then (Thrown e s) f = Thrown e s"
| "and_then Aborted f = Aborted"
| "and_then Undefined f = Undefined"

text \<open>\<^verbatim>\<open>try { ... } catch (...) { handler }\<close>\<close>

fun try_catch :: "('r, 's) outcome \<Rightarrow> (exn \<Rightarrow> 's \<Rightarrow> ('r, 's) outcome) \<Rightarrow> ('r, 's) outcome" where
  "try_catch (Thrown e s) h = h e s"
| "try_catch (Ret r s) h = Ret r s"
| "try_catch Aborted h = Aborted"
| "try_catch Undefined h = Undefined"

text \<open>A handler that cleans up and rethrows: \<^verbatim>\<open>catch (...) { cleanup; throw; }\<close>\<close>

definition rethrow_after :: "('s \<Rightarrow> (unit, 's) outcome) \<Rightarrow> exn \<Rightarrow> 's \<Rightarrow> ('r, 's) outcome" where
  "rethrow_after cleanup e s = and_then (cleanup s) (\<lambda>_ s1. Thrown e s1)"

text \<open>The destructor of a local object that runs while an exception passes its scope.\<close>

definition on_unwind :: "('r, 's) outcome \<Rightarrow> ('s \<Rightarrow> (unit, 's) outcome) \<Rightarrow> ('r, 's) outcome" where
  "on_unwind body dtor = try_catch body (rethrow_after dtor)"

subsection \<open>Slots\<close>

definition ptr_add :: "ptr \<Rightarrow> nat \<Rightarrow> ptr" where
  "ptr_add p n = (fst p, snd p + n)"

definition cell_at :: "'a machine \<Rightarrow> ptr \<Rightarrow> 'a cell option" where
  "cell_at m p =
     (case fst p of
        None \<Rightarrow> None
      | Some a \<Rightarrow>
          (case heap m a of
             None \<Rightarrow> None
           | Some cs \<Rightarrow> if snd p < length cs then Some (cs ! snd p) else None))"

definition put_cell :: "ptr \<Rightarrow> 'a cell \<Rightarrow> 'a machine \<Rightarrow> 'a machine" where
  "put_cell p c m =
     (case fst p of
        None \<Rightarrow> m
      | Some a \<Rightarrow>
          (case heap m a of
             None \<Rightarrow> m
           | Some cs \<Rightarrow> m\<lparr>heap := (heap m)(a \<mapsto> cs[snd p := c])\<rparr>))"

definition record_event :: "'a event \<Rightarrow> 'a machine \<Rightarrow> 'a machine" where
  "record_event ev m = m\<lparr>trace := trace m @ [ev]\<rparr>"

text \<open>\<^verbatim>\<open>new (p) T(args...)\<close>: construct an object in the raw slot \<open>p\<close>.\<close>

definition placement_new :: "ptr \<Rightarrow> 'a ctor_call \<Rightarrow> 'a machine \<Rightarrow> (ptr, 'a machine) outcome" where
  "placement_new p call m =
     (case cell_at m p of
        Some Raw \<Rightarrow>
          (case snd call (trace m) of
             None \<Rightarrow> Thrown elem_exn (record_event (Failed (fst call)) m)
           | Some x \<Rightarrow> Ret p (record_event (Done (fst call) x) (put_cell p (Live x) m)))
      | _ \<Rightarrow> Undefined)"

text \<open>\<^verbatim>\<open>std::destroy_at(p)\<close>: destructors do not throw.\<close>

definition destroy_at :: "ptr \<Rightarrow> 'a machine \<Rightarrow> (unit, 'a machine) outcome" where
  "destroy_at p m =
     (case cell_at m p of
        Some (Live x) \<Rightarrow> Ret () (record_event (Done Dtor x) (put_cell p Raw m))
      | _ \<Rightarrow> Undefined)"

text \<open>\<^verbatim>\<open>new (dst) T(*src)\<close>\<close>

definition copy_construct :: "'a env \<Rightarrow> ptr \<Rightarrow> ptr \<Rightarrow> 'a machine \<Rightarrow> (ptr, 'a machine) outcome" where
  "copy_construct E dst src m =
     (case cell_at m src of
        Some (Live x) \<Rightarrow> placement_new dst (Copy_ctor, \<lambda>h. copy_ctor E h x) m
      | _ \<Rightarrow> Undefined)"

text \<open>\<^verbatim>\<open>new (dst) T(std::move(*src))\<close>: the source stays alive, in its moved-from state.\<close>

definition move_construct :: "'a env \<Rightarrow> ptr \<Rightarrow> ptr \<Rightarrow> 'a machine \<Rightarrow> (ptr, 'a machine) outcome" where
  "move_construct E dst src m =
     (case cell_at m src of
        Some (Live x) \<Rightarrow>
          (case cell_at m dst of
             Some Raw \<Rightarrow>
               (case move_ctor E (trace m) x of
                  (None, x') \<Rightarrow>
                    Thrown elem_exn (record_event (Failed Move_ctor) (put_cell src (Live x') m))
                | (Some y, x') \<Rightarrow>
                    Ret dst (record_event (Done Move_ctor y)
                               (put_cell dst (Live y) (put_cell src (Live x') m))))
           | _ \<Rightarrow> Undefined)
      | _ \<Rightarrow> Undefined)"

text \<open>\<^verbatim>\<open>*dst = *src\<close>\<close>

definition copy_assign_cell :: "'a env \<Rightarrow> ptr \<Rightarrow> ptr \<Rightarrow> 'a machine \<Rightarrow> (unit, 'a machine) outcome" where
  "copy_assign_cell E dst src m =
     (case cell_at m src of
        Some (Live x) \<Rightarrow>
          (case cell_at m dst of
             Some (Live d) \<Rightarrow>
               (case copy_assign E (trace m) d x of
                  (True, d') \<Rightarrow>
                    Ret () (record_event (Done Copy_assign d') (put_cell dst (Live d') m))
                | (False, d') \<Rightarrow>
                    Thrown elem_exn (record_event (Failed Copy_assign) (put_cell dst (Live d') m)))
           | _ \<Rightarrow> Undefined)
      | _ \<Rightarrow> Undefined)"

text \<open>\<^verbatim>\<open>*dst = std::move(*src)\<close>\<close>

definition move_assign_cell :: "'a env \<Rightarrow> ptr \<Rightarrow> ptr \<Rightarrow> 'a machine \<Rightarrow> (unit, 'a machine) outcome" where
  "move_assign_cell E dst src m =
     (case cell_at m src of
        Some (Live x) \<Rightarrow>
          (case cell_at m dst of
             Some (Live d) \<Rightarrow>
               (case move_assign E (trace m) d x of
                  (True, d', x') \<Rightarrow>
                    Ret () (record_event (Done Move_assign d')
                              (put_cell dst (Live d') (put_cell src (Live x') m)))
                | (False, d', x') \<Rightarrow>
                    Thrown elem_exn (record_event (Failed Move_assign)
                              (put_cell dst (Live d') (put_cell src (Live x') m))))
           | _ \<Rightarrow> Undefined)
      | _ \<Rightarrow> Undefined)"

section \<open>The algorithms of \<^verbatim>\<open><memory>\<close> and \<^verbatim>\<open><algorithm>\<close> that the container calls\<close>

text \<open>\<^verbatim>\<open>std::destroy_n(first, n)\<close>\<close>

fun destroy_n :: "ptr \<Rightarrow> nat \<Rightarrow> 'a machine \<Rightarrow> (unit, 'a machine) outcome" where
  "destroy_n first 0 m = Ret () m"
| "destroy_n first (Suc n) m =
     and_then (destroy_at first m) (\<lambda>_ m1. destroy_n (ptr_add first 1) n m1)"

text \<open>
  The three \<^verbatim>\<open>std::uninitialized_..._n\<close> algorithms construct \<open>n\<close> objects from
  \<open>cur\<close> on; when a constructor throws they destroy what they have built, the slots from
  \<open>d_first\<close> up to \<open>cur\<close>, and rethrow.
\<close>

definition destroy_built :: "ptr \<Rightarrow> ptr \<Rightarrow> exn \<Rightarrow> 'a machine \<Rightarrow> ('r, 'a machine) outcome" where
  "destroy_built d_first cur = rethrow_after (destroy_n d_first (snd cur - snd d_first))"

fun value_construct_loop ::
  "'a env \<Rightarrow> ptr \<Rightarrow> ptr \<Rightarrow> nat \<Rightarrow> 'a machine \<Rightarrow> (ptr, 'a machine) outcome" where
  "value_construct_loop E d_first cur 0 m = Ret cur m"
| "value_construct_loop E d_first cur (Suc n) m =
     and_then
       (try_catch (placement_new cur (Value_init, value_init E) m) (destroy_built d_first cur))
       (\<lambda>_ m1. value_construct_loop E d_first (ptr_add cur 1) n m1)"

definition uninitialized_value_construct_n ::
  "'a env \<Rightarrow> ptr \<Rightarrow> nat \<Rightarrow> 'a machine \<Rightarrow> (ptr, 'a machine) outcome" where
  "uninitialized_value_construct_n E first n m = value_construct_loop E first first n m"

fun copy_construct_loop ::
  "'a env \<Rightarrow> ptr \<Rightarrow> ptr \<Rightarrow> ptr \<Rightarrow> nat \<Rightarrow> 'a machine \<Rightarrow> (ptr, 'a machine) outcome" where
  "copy_construct_loop E d_first first cur 0 m = Ret cur m"
| "copy_construct_loop E d_first first cur (Suc n) m =
     and_then
       (try_catch (copy_construct E cur first m) (destroy_built d_first cur))
       (\<lambda>_ m1. copy_construct_loop E d_first (ptr_add first 1) (ptr_add cur 1) n m1)"

definition uninitialized_copy_n ::
  "'a env \<Rightarrow> ptr \<Rightarrow> nat \<Rightarrow> ptr \<Rightarrow> 'a machine \<Rightarrow> (ptr, 'a machine) outcome" where
  "uninitialized_copy_n E first n d_first m = copy_construct_loop E d_first first d_first n m"

fun move_construct_loop ::
  "'a env \<Rightarrow> ptr \<Rightarrow> ptr \<Rightarrow> ptr \<Rightarrow> nat \<Rightarrow> 'a machine \<Rightarrow> (ptr, 'a machine) outcome" where
  "move_construct_loop E d_first first cur 0 m = Ret cur m"
| "move_construct_loop E d_first first cur (Suc n) m =
     and_then
       (try_catch (move_construct E cur first m) (destroy_built d_first cur))
       (\<lambda>_ m1. move_construct_loop E d_first (ptr_add first 1) (ptr_add cur 1) n m1)"

definition uninitialized_move_n ::
  "'a env \<Rightarrow> ptr \<Rightarrow> nat \<Rightarrow> ptr \<Rightarrow> 'a machine \<Rightarrow> (ptr, 'a machine) outcome" where
  "uninitialized_move_n E first n d_first m = move_construct_loop E d_first first d_first n m"

text \<open>
  An iterator range \<open>[first, last)\<close> is valid when both pointers are into the same block
  and \<open>first\<close> is not behind \<open>last\<close>; its length is then \<open>last - first\<close>. The
  algorithms below have undefined behaviour on any other pair.
\<close>

definition range_length :: "ptr \<Rightarrow> ptr \<Rightarrow> nat option" where
  "range_length first lastp =
     (if fst first = fst lastp \<and> snd first \<le> snd lastp then Some (snd lastp - snd first) else None)"

fun copy_loop :: "'a env \<Rightarrow> ptr \<Rightarrow> ptr \<Rightarrow> nat \<Rightarrow> 'a machine \<Rightarrow> (ptr, 'a machine) outcome" where
  "copy_loop E first d_first 0 m = Ret d_first m"
| "copy_loop E first d_first (Suc n) m =
     and_then (copy_assign_cell E d_first first m)
       (\<lambda>_ m1. copy_loop E (ptr_add first 1) (ptr_add d_first 1) n m1)"

text \<open>\<^verbatim>\<open>std::copy(first, last, d_first)\<close>\<close>

definition std_copy :: "'a env \<Rightarrow> ptr \<Rightarrow> ptr \<Rightarrow> ptr \<Rightarrow> 'a machine \<Rightarrow> (ptr, 'a machine) outcome" where
  "std_copy E first lastp d_first m =
     (case range_length first lastp of
        None \<Rightarrow> Undefined
      | Some n \<Rightarrow> copy_loop E first d_first n m)"

fun move_loop :: "'a env \<Rightarrow> ptr \<Rightarrow> ptr \<Rightarrow> nat \<Rightarrow> 'a machine \<Rightarrow> (ptr, 'a machine) outcome" where
  "move_loop E first d_first 0 m = Ret d_first m"
| "move_loop E first d_first (Suc n) m =
     and_then (move_assign_cell E d_first first m)
       (\<lambda>_ m1. move_loop E (ptr_add first 1) (ptr_add d_first 1) n m1)"

text \<open>\<^verbatim>\<open>std::move(first, last, d_first)\<close>\<close>

definition std_move :: "'a env \<Rightarrow> ptr \<Rightarrow> ptr \<Rightarrow> ptr \<Rightarrow> 'a machine \<Rightarrow> (ptr, 'a machine) outcome" where
  "std_move E first lastp d_first m =
     (case range_length first lastp of
        None \<Rightarrow> Undefined
      | Some n \<Rightarrow> move_loop E first d_first n m)"

fun move_backward_loop ::
  "'a env \<Rightarrow> ptr \<Rightarrow> ptr \<Rightarrow> nat \<Rightarrow> 'a machine \<Rightarrow> (ptr, 'a machine) outcome" where
  "move_backward_loop E lastp d_last 0 m = Ret d_last m"
| "move_backward_loop E lastp d_last (Suc n) m =
     (if snd lastp = 0 \<or> snd d_last = 0 then Undefined
      else
        and_then (move_assign_cell E (fst d_last, snd d_last - 1) (fst lastp, snd lastp - 1) m)
          (\<lambda>_ m1. move_backward_loop E (fst lastp, snd lastp - 1) (fst d_last, snd d_last - 1) n m1))"

text \<open>\<^verbatim>\<open>std::move_backward(first, last, d_last)\<close>: the last element is moved first.\<close>

definition std_move_backward ::
  "'a env \<Rightarrow> ptr \<Rightarrow> ptr \<Rightarrow> ptr \<Rightarrow> 'a machine \<Rightarrow> (ptr, 'a machine) outcome" where
  "std_move_backward E first lastp d_last m =
     (case range_length first lastp of
        None \<Rightarrow> Undefined
      | Some n \<Rightarrow> move_backward_loop E lastp d_last n m)"

section \<open>\<^verbatim>\<open>RawMemory\<close>\<close>

text \<open>
  The members \<^verbatim>\<open>buffer_\<close>, \<^verbatim>\<open>capacity_\<close>, \<^verbatim>\<open>data_\<close> and \<^verbatim>\<open>size_\<close> of the source are
  the fields \<open>buffer_m\<close>, \<open>capacity_m\<close>, \<open>data_m\<close> and \<open>size_m\<close> here (a name
  cannot end in an underscore).
\<close>

record RawMemory =
  buffer_m :: ptr
  capacity_m :: nat

text \<open>\<^verbatim>\<open>operator new(bytes)\<close>: a fresh block or \<^verbatim>\<open>std::bad_alloc\<close>.\<close>

definition operator_new :: "'a env \<Rightarrow> nat \<Rightarrow> 'a machine \<Rightarrow> (ptr, 'a machine) outcome" where
  "operator_new E bytes m =
     (if new_ok E (next_addr m) bytes
      then Ret (Some (next_addr m), 0)
             (m\<lparr>heap := (heap m)(next_addr m \<mapsto> replicate (bytes div sizeof_T E) Raw),
                next_addr := Suc (next_addr m)\<rparr>)
      else Thrown bad_alloc m)"

text \<open>\<^verbatim>\<open>operator delete(p)\<close>: nothing for \<^verbatim>\<open>nullptr\<close>; whatever the block held is gone.\<close>

definition operator_delete :: "ptr \<Rightarrow> 'a machine \<Rightarrow> (unit, 'a machine) outcome" where
  "operator_delete p m =
     (case fst p of
        None \<Rightarrow> Ret () m
      | Some a \<Rightarrow>
          (if heap m a \<noteq> None \<and> snd p = 0 then Ret () (m\<lparr>heap := (heap m)(a := None)\<rparr>)
           else Undefined))"

definition Allocate :: "'a env \<Rightarrow> nat \<Rightarrow> 'a machine \<Rightarrow> (ptr, 'a machine) outcome" where
  "Allocate E n m =
     (if n \<noteq> 0 then operator_new E (size_t_mod (n * sizeof_T E)) m else Ret (None, 0) m)"

definition Deallocate :: "ptr \<Rightarrow> 'a machine \<Rightarrow> (unit, 'a machine) outcome" where
  "Deallocate buf m = operator_delete buf m"

text \<open>\<^verbatim>\<open>RawMemory() = default\<close>\<close>

definition RawMemory_default :: RawMemory where
  "RawMemory_default = \<lparr>buffer_m = (None, 0), capacity_m = 0\<rparr>"

text \<open>\<^verbatim>\<open>explicit RawMemory(size_t capacity)\<close>\<close>

definition RawMemory_ctor :: "'a env \<Rightarrow> nat \<Rightarrow> 'a machine \<Rightarrow> (RawMemory, 'a machine) outcome" where
  "RawMemory_ctor E capacity m =
     and_then (Allocate E capacity m) (\<lambda>b m1. Ret \<lparr>buffer_m = b, capacity_m = capacity\<rparr> m1)"

text \<open>\<^verbatim>\<open>~RawMemory()\<close>\<close>

definition RawMemory_dtor :: "RawMemory \<Rightarrow> 'a machine \<Rightarrow> (unit, 'a machine) outcome" where
  "RawMemory_dtor d m = Deallocate (buffer_m d) m"

text \<open>\<^verbatim>\<open>T* operator+(size_t offset)\<close>\<close>

definition RawMemory_plus :: "RawMemory \<Rightarrow> nat \<Rightarrow> 's \<Rightarrow> (ptr, 's) outcome" where
  "RawMemory_plus d offset s =
     (if offset \<le> capacity_m d then Ret (ptr_add (buffer_m d) offset) s else Aborted)"

text \<open>\<^verbatim>\<open>T& operator[](size_t index)\<close>: the reference is the slot's address.\<close>

definition RawMemory_index :: "RawMemory \<Rightarrow> nat \<Rightarrow> 's \<Rightarrow> (ptr, 's) outcome" where
  "RawMemory_index d index s =
     (if index < capacity_m d then Ret (ptr_add (buffer_m d) index) s else Aborted)"

text \<open>\<^verbatim>\<open>void Swap(RawMemory& other)\<close>: the pair is \<open>(*this, other)\<close>.\<close>

definition RawMemory_Swap :: "RawMemory \<times> RawMemory \<Rightarrow> RawMemory \<times> RawMemory" where
  "RawMemory_Swap p =
     (case p of (this, other) \<Rightarrow>
        (this\<lparr>buffer_m := buffer_m other, capacity_m := capacity_m other\<rparr>,
         other\<lparr>buffer_m := buffer_m this, capacity_m := capacity_m this\<rparr>))"

definition GetAddress :: "RawMemory \<Rightarrow> ptr" where
  "GetAddress d = buffer_m d"

definition RawMemory_Capacity :: "RawMemory \<Rightarrow> nat" where
  "RawMemory_Capacity d = capacity_m d"

section \<open>\<^verbatim>\<open>Vector\<close>\<close>

record Vector =
  data_m :: RawMemory
  size_m :: nat

text \<open>
  A member function works on \<open>*this\<close> and the machine. \<open>within v\<close> runs a piece of
  code that leaves the members of \<open>*this\<close> alone.
\<close>

fun within :: "Vector \<Rightarrow> ('r, 'm) outcome \<Rightarrow> ('r, Vector \<times> 'm) outcome" where
  "within v (Ret r m) = Ret r (v, m)"
| "within v (Thrown e m) = Thrown e (v, m)"
| "within v Aborted = Aborted"
| "within v Undefined = Undefined"

definition Size :: "Vector \<Rightarrow> nat" where
  "Size v = size_m v"

definition Capacity :: "Vector \<Rightarrow> nat" where
  "Capacity v = RawMemory_Capacity (data_m v)"

definition Vector_begin :: "Vector \<Rightarrow> ptr" where
  "Vector_begin v = GetAddress (data_m v)"

definition Vector_end :: "Vector \<Rightarrow> ptr" where
  "Vector_end v = ptr_add (GetAddress (data_m v)) (size_m v)"

text \<open>\<^verbatim>\<open>Vector() = default\<close>\<close>

definition Vector_default :: Vector where
  "Vector_default = \<lparr>data_m = RawMemory_default, size_m = 0\<rparr>"

text \<open>\<^verbatim>\<open>explicit Vector(size_t size)\<close>: when the body throws, the member \<open>data_\<close> is destroyed.\<close>

definition Vector_sized :: "'a env \<Rightarrow> nat \<Rightarrow> 'a machine \<Rightarrow> (Vector, 'a machine) outcome" where
  "Vector_sized E sz m =
     and_then (RawMemory_ctor E sz m) (\<lambda>d m1.
       on_unwind
         (and_then (uninitialized_value_construct_n E (GetAddress d) sz m1)
            (\<lambda>_ m2. Ret \<lparr>data_m = d, size_m = sz\<rparr> m2))
         (RawMemory_dtor d))"

text \<open>\<^verbatim>\<open>Vector(const Vector& other)\<close>\<close>

definition Vector_copy :: "'a env \<Rightarrow> Vector \<Rightarrow> 'a machine \<Rightarrow> (Vector, 'a machine) outcome" where
  "Vector_copy E other m =
     and_then (RawMemory_ctor E (size_m other) m) (\<lambda>d m1.
       on_unwind
         (and_then
            (uninitialized_copy_n E (GetAddress (data_m other)) (size_m other) (GetAddress d) m1)
            (\<lambda>_ m2. Ret \<lparr>data_m = d, size_m = size_m other\<rparr> m2))
         (RawMemory_dtor d))"

text \<open>\<^verbatim>\<open>void Swap(Vector& other) noexcept\<close>: the pair is \<open>(*this, other)\<close>.\<close>

definition Vector_Swap :: "Vector \<times> Vector \<Rightarrow> Vector \<times> Vector" where
  "Vector_Swap p =
     (case p of (this, other) \<Rightarrow>
        (case RawMemory_Swap (data_m this, data_m other) of (d, od) \<Rightarrow>
           (this\<lparr>data_m := d, size_m := size_m other\<rparr>,
            other\<lparr>data_m := od, size_m := size_m this\<rparr>)))"

text \<open>\<^verbatim>\<open>Vector(Vector&& other) noexcept { Swap(other); }\<close>: the new object and \<open>other\<close>.\<close>

definition Vector_move :: "Vector \<Rightarrow> Vector \<times> Vector" where
  "Vector_move other = Vector_Swap (Vector_default, other)"

text \<open>\<^verbatim>\<open>~Vector()\<close>, followed by the destructor of the member \<open>data_\<close>.\<close>

definition Vector_dtor :: "Vector \<Rightarrow> 'a machine \<Rightarrow> (unit, 'a machine) outcome" where
  "Vector_dtor v m =
     and_then (destroy_n (GetAddress (data_m v)) (size_m v) m)
       (\<lambda>_ m1. RawMemory_dtor (data_m v) m1)"

text \<open>\<^verbatim>\<open>T& operator[](size_t index) noexcept\<close>\<close>

definition Vector_index :: "Vector \<Rightarrow> nat \<Rightarrow> 's \<Rightarrow> (ptr, 's) outcome" where
  "Vector_index v index s =
     (if index < size_m v then RawMemory_index (data_m v) index s else Aborted)"

text \<open>
  \<^verbatim>\<open>Vector& operator=(const Vector& rhs)\<close>, the part under \<^verbatim>\<open>if (this != &rhs)\<close>:
  here \<open>rhs\<close> is another object than \<open>*this\<close>, and it is not written to.
\<close>

definition assign_from :: "'a env \<Rightarrow> Vector \<Rightarrow> Vector \<times> 'a machine \<Rightarrow> (unit, Vector \<times> 'a machine) outcome" where
  "assign_from E rhs s =
     (case s of (v, m) \<Rightarrow>
        if size_m rhs > RawMemory_Capacity (data_m v) then
          and_then (within v (Vector_copy E rhs m)) (\<lambda>rhs_copy s1.
            case s1 of (v1, m1) \<Rightarrow>
              (case Vector_Swap (v1, rhs_copy) of (v2, rhs_copy2) \<Rightarrow>
                 within v2 (Vector_dtor rhs_copy2 m1)))
        else
          and_then
            (within v
               (if size_m rhs < size_m v then
                  and_then
                    (std_copy E (GetAddress (data_m rhs))
                       (ptr_add (GetAddress (data_m rhs)) (size_m rhs)) (GetAddress (data_m v)) m)
                    (\<lambda>_ m1. destroy_n (ptr_add (GetAddress (data_m v)) (size_m rhs))
                               (size_m v - size_m rhs) m1)
                else
                  and_then
                    (std_copy E (GetAddress (data_m rhs))
                       (ptr_add (GetAddress (data_m rhs)) (size_m v)) (GetAddress (data_m v)) m)
                    (\<lambda>_ m1.
                       and_then
                         (uninitialized_copy_n E (ptr_add (GetAddress (data_m rhs)) (size_m v))
                            (size_m rhs - size_m v) (ptr_add (GetAddress (data_m v)) (size_m v)) m1)
                         (\<lambda>_ m2. Ret () m2))))
            (\<lambda>_ s1. case s1 of (v1, m1) \<Rightarrow> Ret () (v1\<lparr>size_m := size_m rhs\<rparr>, m1)))"

text \<open>
  The two assignment operators and \<open>Swap\<close> take a second \<open>Vector\<close> by reference, and the
  assignments compare addresses. For them the \<open>Vector\<close> objects live in a store, and
  \<open>this\<close> and \<open>rhs\<close> are their addresses.
\<close>

type_synonym 'a objects = "(nat \<Rightarrow> Vector) \<times> 'a machine"

definition store_this :: "(nat \<Rightarrow> Vector) \<Rightarrow> nat \<Rightarrow> ('r, Vector \<times> 'm) outcome \<Rightarrow> ('r, (nat \<Rightarrow> Vector) \<times> 'm) outcome" where
  "store_this V this out =
     (case out of
        Ret r s \<Rightarrow> Ret r (V(this := fst s), snd s)
      | Thrown e s \<Rightarrow> Thrown e (V(this := fst s), snd s)
      | Aborted \<Rightarrow> Aborted
      | Undefined \<Rightarrow> Undefined)"

text \<open>\<^verbatim>\<open>Vector& operator=(const Vector& rhs)\<close>\<close>

definition copy_assignment :: "'a env \<Rightarrow> nat \<Rightarrow> nat \<Rightarrow> 'a objects \<Rightarrow> (unit, 'a objects) outcome" where
  "copy_assignment E this rhs s =
     (case s of (V, m) \<Rightarrow>
        if this \<noteq> rhs then store_this V this (assign_from E (V rhs) (V this, m))
        else Ret () (V, m))"

text \<open>\<^verbatim>\<open>void Swap(Vector& other) noexcept\<close> on two objects of the store.\<close>

definition Swap :: "nat \<Rightarrow> nat \<Rightarrow> 'a objects \<Rightarrow> (unit, 'a objects) outcome" where
  "Swap this other s =
     (case s of (V, m) \<Rightarrow>
        (case Vector_Swap (V this, V other) of (a, b) \<Rightarrow> Ret () (V(this := a, other := b), m)))"

text \<open>\<^verbatim>\<open>Vector& operator=(Vector&& rhs) noexcept\<close>\<close>

definition move_assignment :: "nat \<Rightarrow> nat \<Rightarrow> 'a objects \<Rightarrow> (unit, 'a objects) outcome" where
  "move_assignment this rhs s = (if this \<noteq> rhs then Swap this rhs s else Ret () s)"

text \<open>
  The relocation of \<open>n\<close> elements into raw storage, as \<open>Reserve\<close>, \<open>EmplaceBack\<close> and
  \<open>Emplace\<close> choose it by \<^verbatim>\<open>if constexpr\<close>:
  \<^verbatim>\<open>std::is_nothrow_move_constructible_v<T> || !std::is_copy_constructible_v<T>\<close>.
\<close>

definition moves_elements :: "'a env \<Rightarrow> bool" where
  "moves_elements E \<longleftrightarrow> is_nothrow_move_constructible E \<or> \<not> is_copy_constructible E"

text \<open>\<^verbatim>\<open>void Reserve(size_t new_capacity)\<close>\<close>

definition Reserve :: "'a env \<Rightarrow> nat \<Rightarrow> Vector \<times> 'a machine \<Rightarrow> (unit, Vector \<times> 'a machine) outcome" where
  "Reserve E new_capacity s =
     (case s of (v, m) \<Rightarrow>
        if new_capacity \<le> RawMemory_Capacity (data_m v) then Ret () (v, m)
        else
          and_then
            (within v
               (and_then (RawMemory_ctor E new_capacity m) (\<lambda>new_data m1.
                  and_then
                    (on_unwind
                       (and_then
                          (if moves_elements E then
                             uninitialized_move_n E (GetAddress (data_m v)) (size_m v)
                               (GetAddress new_data) m1
                           else
                             uninitialized_copy_n E (GetAddress (data_m v)) (size_m v)
                               (GetAddress new_data) m1)
                          (\<lambda>_ m2. destroy_n (GetAddress (data_m v)) (size_m v) m2))
                       (RawMemory_dtor new_data))
                    (\<lambda>_ m3.
                       case RawMemory_Swap (data_m v, new_data) of (d, old_data) \<Rightarrow>
                         and_then (RawMemory_dtor old_data m3) (\<lambda>_ m4. Ret d m4)))))
            (\<lambda>d s1. case s1 of (v1, m5) \<Rightarrow> Ret () (v1\<lparr>data_m := d\<rparr>, m5)))"

text \<open>\<^verbatim>\<open>void Resize(size_t new_size)\<close>\<close>

definition Resize :: "'a env \<Rightarrow> nat \<Rightarrow> Vector \<times> 'a machine \<Rightarrow> (unit, Vector \<times> 'a machine) outcome" where
  "Resize E new_size s =
     and_then
       (if new_size > size_m (fst s) then
          and_then (Reserve E new_size s) (\<lambda>_ s1.
            case s1 of (v1, m1) \<Rightarrow>
              within v1
                (and_then
                   (uninitialized_value_construct_n E
                      (ptr_add (GetAddress (data_m v1)) (size_m v1)) (new_size - size_m v1) m1)
                   (\<lambda>_ m2. Ret () m2)))
        else
          (case s of (v, m) \<Rightarrow>
             within v
               (destroy_n (ptr_add (GetAddress (data_m v)) new_size) (size_m v - new_size) m)))
       (\<lambda>_ s2. case s2 of (v2, m3) \<Rightarrow> Ret () (v2\<lparr>size_m := new_size\<rparr>, m3))"

text \<open>\<^verbatim>\<open>void PopBack()\<close>\<close>

definition PopBack :: "Vector \<times> 'a machine \<Rightarrow> (unit, Vector \<times> 'a machine) outcome" where
  "PopBack s =
     (case s of (v, m) \<Rightarrow>
        if size_m v > 0 then
          and_then
            (within v
               (destroy_at (fst (GetAddress (data_m v)), snd (GetAddress (data_m v)) + size_m v - 1) m))
            (\<lambda>_ s1. case s1 of (v1, m1) \<Rightarrow> Ret () (v1\<lparr>size_m := size_m v1 - 1\<rparr>, m1))
        else Ret () (v, m))"

text \<open>
  The storage a growing \<open>EmplaceBack\<close> or \<open>Emplace\<close> asks for:
  \<^verbatim>\<open>size_ == 0 ? 1 : size_ * size_factor\<close> with \<^verbatim>\<open>int size_factor = 2\<close>.
\<close>

definition grown_capacity :: "Vector \<Rightarrow> nat" where
  "grown_capacity v = (if size_m v = 0 then 1 else size_t_mod (size_m v * 2))"

text \<open>
  \<^verbatim>\<open>T& EmplaceBack(Args&&... args)\<close>: \<open>call\<close> is the constructor call
  \<^verbatim>\<open>T(std::forward<Args>(args)...)\<close>; the reference returned is the slot's address.
\<close>

definition EmplaceBack ::
  "'a env \<Rightarrow> 'a ctor_call \<Rightarrow> Vector \<times> 'a machine \<Rightarrow> (ptr, Vector \<times> 'a machine) outcome" where
  "EmplaceBack E call s =
     (case s of (v, m) \<Rightarrow>
        and_then
          (within v
             (if size_m v = Capacity v then
                and_then (RawMemory_ctor E (grown_capacity v) m) (\<lambda>new_data m1.
                  and_then
                    (on_unwind
                       (and_then (RawMemory_plus new_data (size_m v) m1) (\<lambda>p m2.
                        and_then (placement_new p call m2) (\<lambda>result m3.
                        and_then
                          (if moves_elements E then
                             uninitialized_move_n E (GetAddress (data_m v)) (size_m v)
                               (GetAddress new_data) m3
                           else
                             try_catch
                               (uninitialized_copy_n E (GetAddress (data_m v)) (size_m v)
                                  (GetAddress new_data) m3)
                               (rethrow_after
                                  (destroy_n (ptr_add (GetAddress new_data) (size_m v)) 1)))
                          (\<lambda>_ m4.
                             and_then (destroy_n (GetAddress (data_m v)) (size_m v) m4)
                               (\<lambda>_ m5. Ret result m5)))))
                       (RawMemory_dtor new_data))
                    (\<lambda>result m6.
                       case RawMemory_Swap (data_m v, new_data) of (d, old_data) \<Rightarrow>
                         and_then (RawMemory_dtor old_data m6) (\<lambda>_ m7. Ret (result, d) m7)))
              else
                and_then (RawMemory_plus (data_m v) (size_m v) m) (\<lambda>p m1.
                and_then (placement_new p call m1) (\<lambda>result m2. Ret (result, data_m v) m2))))
          (\<lambda>rd s1. case s1 of (v1, m8) \<Rightarrow>
             Ret (fst rd) (v1\<lparr>data_m := snd rd, size_m := size_t_mod (size_m v1 + 1)\<rparr>, m8)))"

text \<open>
  The argument of \<open>PushBack\<close> and \<open>Insert\<close>: an lvalue is copied into the new element,
  an rvalue is moved into it (what is left in the caller's object is not the container's).
  The argument is an object of the caller's outside the container, given by its value when
  the call is made. A reference to an element of the same container, which the in-place
  branch of \<open>Emplace\<close> reads only after it has shifted the elements, is not covered by
  this type.
\<close>

datatype 'a arg = Lvalue 'a | Rvalue 'a

fun forwarded :: "'a env \<Rightarrow> 'a arg \<Rightarrow> 'a ctor_call" where
  "forwarded E (Lvalue x) = (Copy_ctor, \<lambda>h. copy_ctor E h x)"
| "forwarded E (Rvalue x) = (Move_ctor, \<lambda>h. fst (move_ctor E h x))"

text \<open>\<^verbatim>\<open>void PushBack(Type&& value) { EmplaceBack(std::forward<Type>(value)); }\<close>\<close>

definition PushBack ::
  "'a env \<Rightarrow> 'a arg \<Rightarrow> Vector \<times> 'a machine \<Rightarrow> (unit, Vector \<times> 'a machine) outcome" where
  "PushBack E val s = and_then (EmplaceBack E (forwarded E val) s) (\<lambda>_ s1. Ret () s1)"

text \<open>\<^verbatim>\<open>pos - begin()\<close>, converted to \<^verbatim>\<open>size_t\<close>; undefined for pointers into different blocks.\<close>

definition ptr_diff :: "ptr \<Rightarrow> ptr \<Rightarrow> nat option" where
  "ptr_diff p q =
     (if fst p = fst q
      then Some (if snd q \<le> snd p then snd p - snd q else 2 ^ 64 - (snd q - snd p))
      else None)"

text \<open>\<^verbatim>\<open>size_ - offset\<close> in \<^verbatim>\<open>size_t\<close>\<close>

definition size_t_minus :: "nat \<Rightarrow> nat \<Rightarrow> nat" where
  "size_t_minus a b = (if b \<le> a then a - b else 2 ^ 64 - (b - a))"

text \<open>\<^verbatim>\<open>T* Emplace(const T* pos, Args&&... args)\<close>\<close>

definition Emplace ::
  "'a env \<Rightarrow> ptr \<Rightarrow> 'a ctor_call \<Rightarrow> Vector \<times> 'a machine \<Rightarrow> (ptr, Vector \<times> 'a machine) outcome" where
  "Emplace E pos call s =
     (case s of (v, m) \<Rightarrow>
        (case ptr_diff pos (Vector_begin v) of
           None \<Rightarrow> Undefined
         | Some offset \<Rightarrow>
             and_then
               (within v
                  (if size_m v = Capacity v then
                     and_then (RawMemory_ctor E (grown_capacity v) m) (\<lambda>new_data m1.
                       and_then
                         (on_unwind
                            (and_then (RawMemory_plus new_data offset m1) (\<lambda>p m2.
                             and_then (placement_new p call m2) (\<lambda>result m3.
                             and_then
                               (if moves_elements E then
                                  and_then
                                    (uninitialized_move_n E (Vector_begin v) offset
                                       (GetAddress new_data) m3)
                                    (\<lambda>_ m4.
                                       uninitialized_move_n E (ptr_add (Vector_begin v) offset)
                                         (size_t_minus (size_m v) offset)
                                         (ptr_add (ptr_add (GetAddress new_data) offset) 1) m4)
                                else
                                  try_catch
                                    (and_then
                                       (uninitialized_copy_n E (Vector_begin v) offset
                                          (GetAddress new_data) m3)
                                       (\<lambda>_ m4.
                                          uninitialized_copy_n E (ptr_add (Vector_begin v) offset)
                                            (size_t_minus (size_m v) offset)
                                            (ptr_add (ptr_add (GetAddress new_data) offset) 1) m4))
                                    (rethrow_after
                                       (destroy_n (ptr_add (GetAddress new_data) offset) 1)))
                               (\<lambda>_ m5.
                                  and_then (destroy_n (Vector_begin v) (size_m v) m5)
                                    (\<lambda>_ m6. Ret result m6)))))
                            (RawMemory_dtor new_data))
                         (\<lambda>result m7.
                            case RawMemory_Swap (data_m v, new_data) of (d, old_data) \<Rightarrow>
                              and_then (RawMemory_dtor old_data m7) (\<lambda>_ m8. Ret (result, d) m8)))
                   else
                     and_then
                       (if size_m v \<noteq> 0 then
                          and_then (RawMemory_plus (data_m v) (size_m v) m) (\<lambda>p m1.
                          and_then
                            (move_construct E p (fst (Vector_end v), snd (Vector_end v) - 1) m1)
                            (\<lambda>_ m2.
                          and_then
                            (try_catch
                               (std_move_backward E (ptr_add (Vector_begin v) offset)
                                  (Vector_end v) (ptr_add (Vector_end v) 1) m2)
                               (rethrow_after (destroy_n (Vector_end v) 1)))
                            (\<lambda>_ m3. destroy_at (ptr_add (Vector_begin v) offset) m3)))
                        else Ret () m)
                       (\<lambda>_ m4.
                          and_then (RawMemory_plus (data_m v) offset m4) (\<lambda>p m5.
                          and_then (placement_new p call m5)
                            (\<lambda>result m6. Ret (result, data_m v) m6)))))
               (\<lambda>rd s1. case s1 of (v1, m9) \<Rightarrow>
                  Ret (fst rd) (v1\<lparr>data_m := snd rd, size_m := size_t_mod (size_m v1 + 1)\<rparr>, m9))))"

text \<open>\<^verbatim>\<open>T* Erase(const T* pos)\<close>\<close>

definition Erase ::
  "'a env \<Rightarrow> ptr \<Rightarrow> Vector \<times> 'a machine \<Rightarrow> (ptr, Vector \<times> 'a machine) outcome" where
  "Erase E pos s =
     (case s of (v, m) \<Rightarrow>
        (case ptr_diff pos (Vector_begin v) of
           None \<Rightarrow> Undefined
         | Some shift \<Rightarrow>
             and_then
               (within v
                  (std_move E (ptr_add (ptr_add (Vector_begin v) shift) 1) (Vector_end v)
                     (ptr_add (Vector_begin v) shift) m))
               (\<lambda>_ s1.
                  and_then (PopBack s1)
                    (\<lambda>_ s2. Ret (ptr_add (Vector_begin (fst s2)) shift) s2))))"

text \<open>
  \<^verbatim>\<open>T* Insert(const T* pos, const T& value)\<close> and \<^verbatim>\<open>T* Insert(const T* pos, T&& value)\<close>
\<close>

definition Insert ::
  "'a env \<Rightarrow> ptr \<Rightarrow> 'a arg \<Rightarrow> Vector \<times> 'a machine \<Rightarrow> (ptr, Vector \<times> 'a machine) outcome" where
  "Insert E pos val s = Emplace E pos (forwarded E val) s"

section \<open>The state of a sequence\<close>

text \<open>
  The block that the buffer of a \<open>Vector\<close> points to: no slots behind \<^verbatim>\<open>nullptr\<close>.
\<close>

definition cells_of :: "Vector \<Rightarrow> 'a machine \<Rightarrow> 'a cell list option" where
  "cells_of v m =
     (case buffer_m (data_m v) of
        (None, i) \<Rightarrow> if i = 0 then Some [] else None
      | (Some a, i) \<Rightarrow> if i = 0 then heap m a else None)"

fun is_Live :: "'a cell \<Rightarrow> bool" where
  "is_Live (Live x) = True"
| "is_Live Raw = False"

fun is_Raw :: "'a cell \<Rightarrow> bool" where
  "is_Raw Raw = True"
| "is_Raw (Live x) = False"

fun value_of :: "'a cell \<Rightarrow> 'a option" where
  "value_of (Live x) = Some x"
| "value_of Raw = None"

text \<open>
  Invariant L: the buffer has \<open>capacity\<close> slots, \<open>size \<le> capacity\<close>, the slots in
  \<open>[0, size)\<close> hold objects and the slots in \<open>[size, capacity)\<close> are raw. The buffer is
  \<^verbatim>\<open>nullptr\<close> exactly when the capacity is zero.
\<close>

definition invariant_L :: "Vector \<Rightarrow> 'a machine \<Rightarrow> bool" where
  "invariant_L v m \<longleftrightarrow>
     (case cells_of v m of
        None \<Rightarrow> False
      | Some cs \<Rightarrow>
          length cs = capacity_m (data_m v) \<and>
          size_m v \<le> capacity_m (data_m v) \<and>
          capacity_m (data_m v) < 2 ^ 64 \<and>
          (fst (buffer_m (data_m v)) = None \<longleftrightarrow> capacity_m (data_m v) = 0) \<and>
          list_all is_Live (take (size_m v) cs) \<and>
          list_all is_Raw (drop (size_m v) cs))"

text \<open>The element values of a sequence, in order.\<close>

definition elements :: "Vector \<Rightarrow> 'a machine \<Rightarrow> 'a list" where
  "elements v m =
     (case cells_of v m of
        None \<Rightarrow> []
      | Some cs \<Rightarrow> List.map_filter value_of (take (size_m v) cs))"

section \<open>Element types and states used as examples\<close>

definition empty_machine :: "'a machine" where
  "empty_machine = \<lparr>heap = (\<lambda>a. None), next_addr = 0, trace = []\<rparr>"

text \<open>An element type like \<^verbatim>\<open>int\<close>: nothing throws, a move leaves its source as it was.\<close>

definition T_int :: "int env" where
  "T_int =
     \<lparr>sizeof_T = 4, is_nothrow_move_constructible = True, is_copy_constructible = True,
      value_init = (\<lambda>h. Some 0), copy_ctor = (\<lambda>h x. Some x),
      move_ctor = (\<lambda>h x. (Some x, x)), copy_assign = (\<lambda>h d x. (True, x)),
      move_assign = (\<lambda>h d x. (True, x, x)), new_ok = (\<lambda>k b. True)\<rparr>"

text \<open>
  An element type like \<^verbatim>\<open>std::string\<close>: nothing throws, moves are \<^verbatim>\<open>noexcept\<close>, and
  a move leaves its source empty.
\<close>

definition T_string :: "string env" where
  "T_string =
     \<lparr>sizeof_T = 32, is_nothrow_move_constructible = True, is_copy_constructible = True,
      value_init = (\<lambda>h. Some []), copy_ctor = (\<lambda>h x. Some x),
      move_ctor = (\<lambda>h x. (Some x, [])), copy_assign = (\<lambda>h d x. (True, x)),
      move_assign = (\<lambda>h d x. (True, x, [])), new_ok = (\<lambda>k b. True)\<rparr>"

text \<open>A constructor call \<^verbatim>\<open>T(args...)\<close> that throws.\<close>

definition throwing_call :: "'a ctor_call" where
  "throwing_call = (Args_ctor, \<lambda>h. None)"

text \<open>
  The state after \<^verbatim>\<open>Vector<T> v; v.Reserve(2); v.PushBack(x);\<close> on the empty machine:
  size 1, capacity 2.
\<close>

definition one_of_two :: "'a \<Rightarrow> Vector \<times> 'a machine" where
  "one_of_two x =
     (\<lparr>data_m = \<lparr>buffer_m = (Some 0, 0), capacity_m = 2\<rparr>, size_m = 1\<rparr>,
      \<lparr>heap = (\<lambda>a. None)(0 \<mapsto> [Live x, Raw]), next_addr = Suc 0,
       trace = [Done Copy_ctor x]\<rparr>)"

text \<open>
  An element type like \<^verbatim>\<open>short\<close>: two bytes, nothing throws.
\<close>

definition T_short :: "int env" where
  "T_short =
     \<lparr>sizeof_T = 2, is_nothrow_move_constructible = True, is_copy_constructible = True,
      value_init = (\<lambda>h. Some 0), copy_ctor = (\<lambda>h x. Some x),
      move_ctor = (\<lambda>h x. (Some x, x)), copy_assign = (\<lambda>h d x. (True, x)),
      move_assign = (\<lambda>h d x. (True, x, x)), new_ok = (\<lambda>k b. True)\<rparr>"

text \<open>
  The state after \<^verbatim>\<open>Vector<T> v; v.Reserve(2); v.PushBack(x); v.PushBack(y);\<close> on the
  empty machine: size 2, capacity 2.
\<close>

definition two_of_two :: "'a \<Rightarrow> 'a \<Rightarrow> Vector \<times> 'a machine" where
  "two_of_two x y =
     (\<lparr>data_m = \<lparr>buffer_m = (Some 0, 0), capacity_m = 2\<rparr>, size_m = 2\<rparr>,
      \<lparr>heap = (\<lambda>a. None)(0 \<mapsto> [Live x, Live y]), next_addr = Suc 0,
       trace = [Done Copy_ctor x, Done Copy_ctor y]\<rparr>)"

text \<open>
  An element type whose move constructor is not \<^verbatim>\<open>noexcept\<close> and that can be copied.
\<close>

definition T_copied :: "int env" where
  "T_copied =
     \<lparr>sizeof_T = 4, is_nothrow_move_constructible = False, is_copy_constructible = True,
      value_init = (\<lambda>h. Some 0), copy_ctor = (\<lambda>h x. Some x),
      move_ctor = (\<lambda>h x. (Some x, x)), copy_assign = (\<lambda>h d x. (True, x)),
      move_assign = (\<lambda>h d x. (True, x, x)), new_ok = (\<lambda>k b. True)\<rparr>"

section \<open>Notions used to state the properties\<close>

text \<open>
  The allocation state of a machine: how many blocks \<^verbatim>\<open>operator new\<close> has handed out,
  which of them exist, and how many slots each has. Operations of the element type and the
  algorithms above never change it.
\<close>

definition shape :: "'a machine \<Rightarrow> nat \<times> (addr \<Rightarrow> nat option)" where
  "shape m = (next_addr m, \<lambda>a. map_option length (heap m a))"

text \<open>Addresses that \<^verbatim>\<open>operator new\<close> has not handed out yet hold no block.\<close>

definition heap_ok :: "'a machine \<Rightarrow> bool" where
  "heap_ok m \<longleftrightarrow> (\<forall>a. next_addr m \<le> a \<longrightarrow> heap m a = None)"

fun kind_of :: "'a event \<Rightarrow> op_kind" where
  "kind_of (Done k x) = k"
| "kind_of (Failed k) = k"

fun builds :: "'a event \<Rightarrow> bool" where
  "builds (Done k x) = (k = Args_ctor \<or> k = Value_init \<or> k = Copy_ctor \<or> k = Move_ctor)"
| "builds (Failed k) = False"

fun destroys :: "'a event \<Rightarrow> bool" where
  "destroys (Done k x) = (k = Dtor)"
| "destroys (Failed k) = False"

text \<open>
  \<open>performed K c d m m'\<close>: from \<open>m\<close> to \<open>m'\<close> the element type performed operations of the kinds
  in \<open>K\<close> only, \<open>c\<close> of them constructed an object and \<open>d\<close> of them destroyed one.
\<close>

definition performed :: "op_kind set \<Rightarrow> nat \<Rightarrow> nat \<Rightarrow> 'a machine \<Rightarrow> 'a machine \<Rightarrow> bool" where
  "performed K c d m m' \<longleftrightarrow>
     (\<exists>evs. trace m' = trace m @ evs \<and> kind_of ` set evs \<subseteq> K \<and>
            length (filter builds evs) = c \<and> length (filter destroys evs) = d)"

text \<open>
  An element type whose copies and moves carry the value over: a constructed or assigned
  object has the value of its source.
\<close>

definition faithful :: "'a env \<Rightarrow> bool" where
  "faithful E \<longleftrightarrow>
     (\<forall>h x y. copy_ctor E h x = Some y \<longrightarrow> y = x) \<and>
     (\<forall>h x y. fst (move_ctor E h x) = Some y \<longrightarrow> y = x) \<and>
     (\<forall>h d x. fst (copy_assign E h d x) \<longrightarrow> snd (copy_assign E h d x) = x) \<and>
     (\<forall>h d x. fst (move_assign E h d x) \<longrightarrow> fst (snd (move_assign E h d x)) = x)"

text \<open>
  The trait tells the truth: a move constructor declared \<^verbatim>\<open>noexcept\<close> does not throw.
\<close>

definition nothrow_sound :: "'a env \<Rightarrow> bool" where
  "nothrow_sound E \<longleftrightarrow>
     (is_nothrow_move_constructible E \<longrightarrow> (\<forall>h x. fst (move_ctor E h x) \<noteq> None))"

text \<open>
  Which slots exist, and which of them hold an object: the liveness of the machine's
  storage, without the values.
\<close>

definition live_map :: "'a machine \<Rightarrow> ptr \<Rightarrow> bool option" where
  "live_map m q = map_option is_Live (cell_at m q)"

text \<open>
  What an operation guarantees about the state it ends in: \<open>R\<close> when it returns, \<open>T\<close> when
  it throws. An operation that aborts or whose behaviour is undefined ends in no state.
\<close>

fun ensures :: "('r \<Rightarrow> 's \<Rightarrow> bool) \<Rightarrow> (exn \<Rightarrow> 's \<Rightarrow> bool) \<Rightarrow> ('r, 's) outcome \<Rightarrow> bool" where
  "ensures R T (Ret r s) = R r s"
| "ensures R T (Thrown e s) = T e s"
| "ensures R T Aborted = True"
| "ensures R T Undefined = True"

text \<open>
  The operations of the element type recorded from \<open>m\<close> to \<open>m'\<close>, when \<open>m'\<close> continues the
  history of \<open>m\<close>, and how many of a list of events constructed an object with the
  constructor \<open>k\<close>.
\<close>

definition events_since :: "'a machine \<Rightarrow> 'a machine \<Rightarrow> 'a event list" where
  "events_since m m' = drop (length (trace m)) (trace m')"

definition continues :: "'a machine \<Rightarrow> 'a machine \<Rightarrow> bool" where
  "continues m m' \<longleftrightarrow> take (length (trace m)) (trace m') = trace m"

definition constructions :: "op_kind \<Rightarrow> 'a event list \<Rightarrow> nat" where
  "constructions k evs = length (filter (\<lambda>ev. builds ev \<and> kind_of ev = k) evs)"

text \<open>
  \<open>kinds_within sk K m m'\<close>: \<open>m'\<close> continues \<open>m\<close> and, the first \<open>sk\<close> new events apart, the new
  events are of the kinds in \<open>K\<close>. \<open>recorded sk K k c m m'\<close>: moreover \<open>c\<close> of them are
  constructions by \<open>k\<close>.
\<close>

definition kinds_within :: "nat \<Rightarrow> op_kind set \<Rightarrow> 'a machine \<Rightarrow> 'a machine \<Rightarrow> bool" where
  "kinds_within sk K m m' \<longleftrightarrow>
     continues m m' \<and> kind_of ` set (drop sk (events_since m m')) \<subseteq> K"

definition recorded :: "nat \<Rightarrow> op_kind set \<Rightarrow> op_kind \<Rightarrow> nat \<Rightarrow> 'a machine \<Rightarrow> 'a machine \<Rightarrow> bool" where
  "recorded sk K k c m m' \<longleftrightarrow>
     kinds_within sk K m m' \<and> constructions k (drop sk (events_since m m')) = c"

text \<open>
  \<open>follows mach sk K k c m x\<close>: the operation \<open>x\<close>, started in the machine \<open>m\<close>, records
  operations of the kinds in \<open>K\<close> only (its first \<open>sk\<close> apart) on every path that ends in a
  state, and exactly \<open>c\<close> constructions by \<open>k\<close> when it returns. \<open>mach\<close> reads the machine
  off the state.
\<close>

definition follows ::
  "('s \<Rightarrow> 'a machine) \<Rightarrow> nat \<Rightarrow> op_kind set \<Rightarrow> op_kind \<Rightarrow> nat \<Rightarrow> 'a machine \<Rightarrow> ('r, 's) outcome \<Rightarrow> bool" where
  "follows mach sk K k c m x =
     ensures (\<lambda>r s. recorded sk K k c m (mach s)) (\<lambda>e s. kinds_within sk K m (mach s)) x"

text \<open>
  The constructor that the traits of \<open>T\<close> select for relocation, and the one they exclude.
\<close>

definition relocation_ctor :: "'a env \<Rightarrow> op_kind" where
  "relocation_ctor E =
     (if is_nothrow_move_constructible E \<or> \<not> is_copy_constructible E then Move_ctor else Copy_ctor)"

definition excluded_ctor :: "'a env \<Rightarrow> op_kind" where
  "excluded_ctor E =
     (if is_nothrow_move_constructible E \<or> \<not> is_copy_constructible E then Copy_ctor else Move_ctor)"

text \<open>
  \<open>relocates E sk n m x\<close>: on every path of \<open>x\<close> that ends in a state, no object is
  constructed by the excluded constructor (the first \<open>sk\<close> events apart: the construction of
  the new element of \<open>EmplaceBack\<close> and \<open>Emplace\<close>), and when \<open>x\<close> returns exactly \<open>n\<close>
  objects have been constructed by the selected one.
\<close>

definition relocates ::
  "'a env \<Rightarrow> nat \<Rightarrow> nat \<Rightarrow> 'a machine \<Rightarrow> ('r, Vector \<times> 'a machine) outcome \<Rightarrow> bool" where
  "relocates E sk n m x = follows snd sk (- {excluded_ctor E}) (relocation_ctor E) n m x"

section \<open>Properties\<close>

lemmas run_defs =
  Reserve_def PushBack_def EmplaceBack_def Emplace_def Insert_def Erase_def PopBack_def
  RawMemory_ctor_def RawMemory_dtor_def RawMemory_plus_def RawMemory_Swap_def
  RawMemory_Capacity_def RawMemory_default_def Vector_default_def
  GetAddress_def Capacity_def Vector_begin_def Vector_end_def Allocate_def Deallocate_def
  operator_new_def operator_delete_def size_t_mod_def size_t_minus_def ptr_diff_def ptr_add_def
  uninitialized_move_n_def uninitialized_copy_n_def uninitialized_value_construct_n_def
  std_move_def std_move_backward_def std_copy_def range_length_def
  placement_new_def destroy_at_def move_construct_def copy_construct_def move_assign_cell_def
  copy_assign_cell_def cell_at_def put_cell_def record_event_def
  on_unwind_def rethrow_after_def destroy_built_def grown_capacity_def moves_elements_def

lemma replicate_two: "replicate 2 x = [x, x]"
  by (simp add: numeral_2_eq_2)

lemma loops_numeral:
  "destroy_n p (numeral k) m = destroy_n p (Suc (pred_numeral k)) m"
  "value_construct_loop E d c (numeral k) m = value_construct_loop E d c (Suc (pred_numeral k)) m"
  "copy_construct_loop E d f c (numeral k) m = copy_construct_loop E d f c (Suc (pred_numeral k)) m"
  "move_construct_loop E d f c (numeral k) m = move_construct_loop E d f c (Suc (pred_numeral k)) m"
  "copy_loop E f d (numeral k) m = copy_loop E f d (Suc (pred_numeral k)) m"
  "move_loop E f d (numeral k) m = move_loop E f d (Suc (pred_numeral k)) m"
  "move_backward_loop E f d (numeral k) m = move_backward_loop E f d (Suc (pred_numeral k)) m"
  by (simp_all only: numeral_eq_Suc)

subsection \<open>The example state is reachable\<close>

lemma one_of_two_reached_int:
  "and_then (Reserve T_int 2 (Vector_default, empty_machine)) (\<lambda>_. PushBack T_int (Lvalue 7))
     = Ret () (one_of_two 7)"
  by (simp add: run_defs T_int_def empty_machine_def one_of_two_def replicate_two)

lemma one_of_two_reached_string:
  "and_then (Reserve T_string 2 (Vector_default, empty_machine))
     (\<lambda>_. PushBack T_string (Lvalue ''a'')) = Ret () (one_of_two ''a'')"
  by (simp add: run_defs T_string_def empty_machine_def one_of_two_def replicate_two)

lemma two_of_two_reached_short:
  "and_then (and_then (Reserve T_short 2 (Vector_default, empty_machine))
      (\<lambda>_. PushBack T_short (Lvalue 1))) (\<lambda>_. PushBack T_short (Lvalue 2))
     = Ret () (two_of_two 1 2)"
  by (simp add: run_defs loops_numeral T_short_def empty_machine_def two_of_two_def replicate_two)

lemma faithful_T_int: "faithful T_int"
  by (simp add: faithful_def T_int_def)

lemma heap_ok_one_of_two: "heap_ok (snd (one_of_two x))"
  by (simp add: heap_ok_def one_of_two_def)

lemma invariant_L_one_of_two: "invariant_L (fst (one_of_two x)) (snd (one_of_two x))"
  by (simp add: invariant_L_def cells_of_def one_of_two_def)

subsection \<open>C1: invariant L on the exceptional exit of an in-place \<open>Emplace\<close>\<close>

text \<open>
  C1 says that every public operation keeps invariant L on every exit path, also when an
  element constructor throws. \<open>Emplace\<close> does not: with spare capacity it shifts the tail
  to the right, destroys the object at the insertion point, and only then runs the new
  element's constructor, outside any handler. On \<^verbatim>\<open>v = [7]\<close> with capacity 2,
  \<^verbatim>\<open>v.Emplace(v.begin(), args)\<close> with a throwing \<^verbatim>\<open>T(args)\<close> leaves size 1 with slot 0 raw
  and an object in slot 1.
\<close>

theorem Emplace_throw_breaks_invariant_L:
  "invariant_L (fst (one_of_two (7::int))) (snd (one_of_two (7::int))) \<and>
   (case Emplace T_int (Vector_begin (fst (one_of_two 7))) throwing_call (one_of_two 7) of
      Thrown e (v, m) \<Rightarrow>
        size_m v = 1 \<and> cells_of v m = Some [Raw, Live 7] \<and> \<not> invariant_L v m
    | _ \<Rightarrow> False)"
  by (simp add: run_defs T_int_def one_of_two_def throwing_call_def invariant_L_def cells_of_def)

subsection \<open>C3: \<open>Insert\<close> at \<open>end()\<close> against \<open>PushBack\<close>\<close>

text \<open>
  C3 says that \<^verbatim>\<open>Insert(end(), x)\<close> has the effect of \<^verbatim>\<open>PushBack(x)\<close>: the previous values
  stay, \<open>x\<close> follows, and the same element operations are observed. With spare capacity
  \<open>Emplace\<close> first move-constructs the last element into the slot at \<open>end()\<close> and
  destroys that object again. On \<^verbatim>\<open>v = ["a"]\<close> with capacity 2 and a string-like element
  type, \<^verbatim>\<open>Insert(end(), "b")\<close> yields \<^verbatim>\<open>["", "b"]\<close> with one move construction and one
  destruction more than \<^verbatim>\<open>PushBack("b")\<close>, which yields \<^verbatim>\<open>["a", "b"]\<close>.
\<close>

theorem Insert_at_end_differs_from_PushBack:
  "(case Insert T_string (Vector_end (fst (one_of_two ''a''))) (Lvalue ''b'') (one_of_two ''a'') of
      Ret p (v, m) \<Rightarrow>
        elements v m = ['''', ''b''] \<and>
        trace m = [Done Copy_ctor ''a'', Done Move_ctor ''a'', Done Dtor ''a'', Done Copy_ctor ''b'']
    | _ \<Rightarrow> False) \<and>
   (case PushBack T_string (Lvalue ''b'') (one_of_two ''a'') of
      Ret p (v, m) \<Rightarrow>
        elements v m = [''a'', ''b''] \<and>
        trace m = [Done Copy_ctor ''a'', Done Copy_ctor ''b'']
    | _ \<Rightarrow> False)"
  by (simp add: run_defs T_string_def one_of_two_def elements_def cells_of_def
      List.map_filter_def)

subsection \<open>C4: precondition violations\<close>

text \<open>
  C4 as stated: every precondition violation aborts, in particular \<open>Erase\<close> at \<open>end()\<close>.
  \<open>Erase\<close> checks nothing; at \<open>end()\<close> it hands \<^verbatim>\<open>std::move\<close> the range
  \<open>[end() + 1, end())\<close>, which is not a valid range. The call does not abort.
\<close>

theorem Erase_at_end_does_not_abort:
  "Erase T_int (Vector_end (fst (one_of_two 7))) (one_of_two 7) \<noteq> Aborted"
  by (simp add: run_defs T_int_def one_of_two_def)

text \<open>
  C4 as amended: indexed access with \<open>index \<ge> size\<close> fails its assertion and aborts, for
  every \<open>Vector\<close>; \<open>Erase\<close> at \<open>end()\<close> is not checked, its behaviour is undefined.
\<close>

theorem index_out_of_range_aborts_Erase_at_end_undefined:
  "(size_m v \<le> index \<longrightarrow> Vector_index v index s = Aborted) \<and>
   Erase E (Vector_end v) (v, m) = Undefined"
  by (simp add: Vector_index_def Erase_def Vector_end_def Vector_begin_def ptr_diff_def
      ptr_add_def std_move_def range_length_def)

theorem index_out_of_range_aborts_witness:
  "size_m (fst (one_of_two (7::int))) \<le> 1 \<and>
   Vector_index (fst (one_of_two (7::int))) 1 () = Aborted \<and>
   Erase T_int (Vector_end (fst (one_of_two 7))) (one_of_two 7) = Undefined"
  using index_out_of_range_aborts_Erase_at_end_undefined
          [of "fst (one_of_two (7::int))" 1 "()" T_int "snd (one_of_two 7)"]
  by (simp add: one_of_two_def)

subsection \<open>C9: \<open>Swap\<close>\<close>

text \<open>
  C9: \<open>Swap\<close> exchanges the buffer pointers, capacities and sizes of two sequences. It
  returns (it cannot throw), the two objects hold each other's former state, and the
  machine is untouched: no block is allocated or freed, no slot changes, and no operation
  of the element type is run. This holds for \<open>this = other\<close> as well.
\<close>

theorem Swap_exchanges_states:
  "Swap this other (V, m) = Ret () (V(this := V other, other := V this), m) \<and>
   Vector_Swap (a, b) = (b, a)"
  by (auto simp: Swap_def Vector_Swap_def RawMemory_Swap_def)

section \<open>Reasoning about the machine\<close>

subsection \<open>Slots, events and pointers\<close>

lemma cell_at_record_event [simp]: "cell_at (record_event ev m) q = cell_at m q"
  by (simp add: cell_at_def record_event_def split: option.splits)

lemma cell_at_put_cell:
  "cell_at (put_cell p c m) q =
     (if q = p \<and> cell_at m p \<noteq> None then Some c else cell_at m q)"
  by (cases p; cases q) (auto simp: cell_at_def put_cell_def split: option.splits)

lemma shape_record_event [simp]: "shape (record_event ev m) = shape m"
  by (simp add: shape_def record_event_def)

lemma shape_put_cell [simp]: "shape (put_cell p c m) = shape m"
  by (auto simp: shape_def put_cell_def fun_eq_iff split: option.splits)

lemma trace_put_cell [simp]: "trace (put_cell p c m) = trace m"
  by (simp add: put_cell_def split: option.splits)

lemma trace_record_event [simp]: "trace (record_event ev m) = trace m @ [ev]"
  by (simp add: record_event_def)

lemma ptr_add_0 [simp]: "ptr_add p 0 = p"
  by (simp add: ptr_add_def)

lemma ptr_add_add [simp]: "ptr_add (ptr_add p a) b = ptr_add p (a + b)"
  by (simp add: ptr_add_def add.assoc)

lemma fst_ptr_add [simp]: "fst (ptr_add p n) = fst p"
  by (simp add: ptr_add_def)

lemma snd_ptr_add [simp]: "snd (ptr_add p n) = snd p + n"
  by (simp add: ptr_add_def)

lemma performed_refl [simp]: "performed K 0 0 m m"
  by (simp add: performed_def)

lemma performed_trans:
  "performed K c d m m1 \<Longrightarrow> performed K' c' d' m1 m2 \<Longrightarrow> performed (K \<union> K') (c + c') (d + d') m m2"
  unfolding performed_def by (elim exE conjE) (rule_tac x = "evs @ evsa" in exI, auto)

lemma performed_mono: "performed K c d m m' \<Longrightarrow> K \<subseteq> K' \<Longrightarrow> performed K' c d m m'"
  unfolding performed_def by blast

lemma performed_event:
  "trace m' = trace m @ [ev] \<Longrightarrow>
   performed {kind_of ev} (if builds ev then 1 else 0) (if destroys ev then 1 else 0) m m'"
  by (simp add: performed_def)

lemma performed_step:
  "trace m1 = trace m @ [ev] \<Longrightarrow> performed K c d m1 m2 \<Longrightarrow> kind_of ev \<in> K' \<Longrightarrow> K \<subseteq> K' \<Longrightarrow>
   performed K' ((if builds ev then 1 else 0) + c) ((if destroys ev then 1 else 0) + d) m m2"
proof -
  assume a: "trace m1 = trace m @ [ev]" "performed K c d m1 m2" "kind_of ev \<in> K'" "K \<subseteq> K'"
  have "performed ({kind_of ev} \<union> K) ((if builds ev then 1 else 0) + c)
          ((if destroys ev then 1 else 0) + d) m m2"
    by (rule performed_trans[OF performed_event[OF a(1)] a(2)])
  then show ?thesis
    by (rule performed_mono) (use a(3,4) in auto)
qed

subsection \<open>\<open>destroy_n\<close>\<close>

lemma destroy_at_Live:
  "cell_at m p = Some (Live x) \<Longrightarrow>
   destroy_at p m = Ret () (record_event (Done Dtor x) (put_cell p Raw m))"
  by (simp add: destroy_at_def)

lemma destroy_n_spec:
  "\<forall>i<n. \<exists>x. cell_at m (ptr_add p i) = Some (Live x) \<Longrightarrow>
   \<exists>m'. destroy_n p n m = Ret () m' \<and> shape m' = shape m \<and> performed {Dtor} 0 n m m' \<and>
        (\<forall>q. cell_at m' q =
              (if fst q = fst p \<and> snd p \<le> snd q \<and> snd q < snd p + n then Some Raw
               else cell_at m q))"
proof (induction n arbitrary: p m)
  case 0
  then show ?case by auto
next
  case (Suc n)
  from Suc.prems obtain x where x: "cell_at m p = Some (Live x)"
    by (metis ptr_add_0 zero_less_Suc)
  let ?m1 = "record_event (Done Dtor x) (put_cell p Raw m)"
  have pre: "\<forall>i<n. \<exists>y. cell_at ?m1 (ptr_add (ptr_add p 1) i) = Some (Live y)"
  proof (intro allI impI)
    fix i assume "i < n"
    then obtain y where "cell_at m (ptr_add p (Suc i)) = Some (Live y)"
      using Suc.prems by auto
    moreover have "ptr_add p (Suc i) \<noteq> p" by (simp add: ptr_add_def prod_eq_iff)
    ultimately show "\<exists>y. cell_at ?m1 (ptr_add (ptr_add p 1) i) = Some (Live y)"
      by (simp add: cell_at_put_cell)
  qed
  from Suc.IH[OF pre] obtain m' where m':
    "destroy_n (ptr_add p 1) n ?m1 = Ret () m'" "shape m' = shape ?m1" "performed {Dtor} 0 n ?m1 m'"
    "\<forall>q. cell_at m' q =
          (if fst q = fst (ptr_add p 1) \<and> snd (ptr_add p 1) \<le> snd q \<and> snd q < snd (ptr_add p 1) + n
           then Some Raw else cell_at ?m1 q)"
    by blast
  have "destroy_n p (Suc n) m = Ret () m'"
    using x m'(1) by (simp add: destroy_at_Live)
  moreover have "shape m' = shape m" using m'(2) by simp
  moreover have "performed {Dtor} 0 (Suc n) m m'"
    using performed_step[of ?m1 m "Done Dtor x" "{Dtor}" 0 n m' "{Dtor}"] m'(3) by simp
  moreover have "\<forall>q. cell_at m' q =
              (if fst q = fst p \<and> snd p \<le> snd q \<and> snd q < snd p + Suc n then Some Raw
               else cell_at m q)"
    using m'(4) x by (auto simp: cell_at_put_cell prod_eq_iff)
  ultimately show ?case by blast
qed

subsection \<open>Construction loops\<close>

lemma placement_new_Raw:
  "cell_at m p = Some Raw \<Longrightarrow>
   placement_new p call m =
     (case snd call (trace m) of
        None \<Rightarrow> Thrown elem_exn (record_event (Failed (fst call)) m)
      | Some x \<Rightarrow> Ret p (record_event (Done (fst call) x) (put_cell p (Live x) m)))"
  by (simp add: placement_new_def)

lemma copy_construct_loop_spec:
  assumes "fst first \<noteq> fst cur" "fst d_first = fst cur" "snd d_first \<le> snd cur"
    and "\<forall>i<length xs. cell_at m (ptr_add first i) = Some (Live (xs ! i))"
    and "\<forall>i<length xs. cell_at m (ptr_add cur i) = Some Raw"
    and "\<forall>j. snd d_first \<le> j \<and> j < snd cur \<longrightarrow> (\<exists>y. cell_at m (fst cur, j) = Some (Live y))"
  shows "(\<exists>m' ys. copy_construct_loop E d_first first cur (length xs) m
                    = Ret (ptr_add cur (length xs)) m' \<and>
            length ys = length xs \<and> (faithful E \<longrightarrow> ys = xs) \<and> shape m' = shape m \<and>
            performed {Copy_ctor} (length xs) 0 m m' \<and>
            (\<forall>q. cell_at m' q =
               (if fst q = fst cur \<and> snd cur \<le> snd q \<and> snd q < snd cur + length xs
                then Some (Live (ys ! (snd q - snd cur))) else cell_at m q))) \<or>
         (\<exists>m' c. copy_construct_loop E d_first first cur (length xs) m = Thrown elem_exn m' \<and>
            shape m' = shape m \<and>
            performed {Copy_ctor, Dtor} c (c + (snd cur - snd d_first)) m m' \<and>
            (\<forall>q. cell_at m' q =
               (if fst q = fst cur \<and> snd d_first \<le> snd q \<and> snd q < snd cur
                then Some Raw else cell_at m q)))"
  using assms
proof (induction xs arbitrary: first cur m)
  case Nil
  then show ?case by auto
next
  case (Cons x xs)
  have src: "cell_at m first = Some (Live x)"
    using Cons.prems(4) by (metis length_greater_0_conv list.distinct(1) nth_Cons_0 ptr_add_0)
  have dst: "cell_at m cur = Some Raw"
    using Cons.prems(5) by (metis length_greater_0_conv list.distinct(1) ptr_add_0)
  show ?case
  proof (cases "copy_ctor E (trace m) x")
    case None
    let ?m1 = "record_event (Failed Copy_ctor) m"
    have "\<forall>i<snd cur - snd d_first. \<exists>y. cell_at ?m1 (ptr_add d_first i) = Some (Live y)"
      using Cons.prems(2,3,6) by (auto simp: ptr_add_def)
    from destroy_n_spec[OF this] obtain m' where m':
      "destroy_n d_first (snd cur - snd d_first) ?m1 = Ret () m'" "shape m' = shape ?m1"
      "performed {Dtor} 0 (snd cur - snd d_first) ?m1 m'"
      "\<forall>q. cell_at m' q =
          (if fst q = fst d_first \<and> snd d_first \<le> snd q \<and> snd q < snd d_first + (snd cur - snd d_first)
           then Some Raw else cell_at ?m1 q)"
      by blast
    have "copy_construct_loop E d_first first cur (length (x # xs)) m = Thrown elem_exn m'"
      using src dst None m'(1)
      by (simp add: copy_construct_def placement_new_Raw destroy_built_def rethrow_after_def)
    moreover have "shape m' = shape m" using m'(2) by simp
    moreover have "performed {Copy_ctor, Dtor} 0 (0 + (snd cur - snd d_first)) m m'"
      using performed_step[of ?m1 m "Failed Copy_ctor" "{Dtor}" 0 "snd cur - snd d_first" m' "{Copy_ctor, Dtor}"] m'(3)
      by simp
    moreover have "\<forall>q. cell_at m' q =
               (if fst q = fst cur \<and> snd d_first \<le> snd q \<and> snd q < snd cur
                then Some Raw else cell_at m q)"
      using m'(4) Cons.prems(2,3) by auto
    ultimately show ?thesis by blast
  next
    case (Some y)
    let ?m1 = "record_event (Done Copy_ctor y) (put_cell cur (Live y) m)"
    have step: "copy_construct E cur first m = Ret cur ?m1"
      using src dst Some by (simp add: copy_construct_def placement_new_Raw)
    have p1: "fst (ptr_add first 1) \<noteq> fst (ptr_add cur 1)" using Cons.prems(1) by simp
    have p2: "fst d_first = fst (ptr_add cur 1)" using Cons.prems(2) by simp
    have p3: "snd d_first \<le> snd (ptr_add cur 1)" using Cons.prems(3) by simp
    have p4: "\<forall>i<length xs. cell_at ?m1 (ptr_add (ptr_add first 1) i) = Some (Live (xs ! i))"
    proof (intro allI impI)
      fix i assume "i < length xs"
      then have "cell_at m (ptr_add first (Suc i)) = Some (Live (xs ! i))"
        using Cons.prems(4) by force
      moreover have "ptr_add first (Suc i) \<noteq> cur" using Cons.prems(1) by (auto simp: ptr_add_def)
      ultimately show "cell_at ?m1 (ptr_add (ptr_add first 1) i) = Some (Live (xs ! i))"
        by (simp add: cell_at_put_cell)
    qed
    have p5: "\<forall>i<length xs. cell_at ?m1 (ptr_add (ptr_add cur 1) i) = Some Raw"
    proof (intro allI impI)
      fix i assume "i < length xs"
      then have "cell_at m (ptr_add cur (Suc i)) = Some Raw"
        using Cons.prems(5) by force
      moreover have "ptr_add cur (Suc i) \<noteq> cur" by (simp add: ptr_add_def prod_eq_iff)
      ultimately show "cell_at ?m1 (ptr_add (ptr_add cur 1) i) = Some Raw"
        by (simp add: cell_at_put_cell)
    qed
    have p6: "\<forall>j. snd d_first \<le> j \<and> j < snd (ptr_add cur 1) \<longrightarrow>
                (\<exists>z. cell_at ?m1 (fst (ptr_add cur 1), j) = Some (Live z))"
      using Cons.prems(6) dst by (auto simp: cell_at_put_cell prod_eq_iff less_Suc_eq)
    from Cons.IH[OF p1 p2 p3 p4 p5 p6]
    show ?thesis
    proof (elim disjE exE conjE)
      fix m' ys
      assume a: "copy_construct_loop E d_first (ptr_add first 1) (ptr_add cur 1) (length xs) ?m1 =
                   Ret (ptr_add (ptr_add cur 1) (length xs)) m'"
        "length ys = length xs" "faithful E \<longrightarrow> ys = xs" "shape m' = shape ?m1"
        "performed {Copy_ctor} (length xs) 0 ?m1 m'"
        "\<forall>q. cell_at m' q =
           (if fst q = fst (ptr_add cur 1) \<and> snd (ptr_add cur 1) \<le> snd q \<and>
               snd q < snd (ptr_add cur 1) + length xs
            then Some (Live (ys ! (snd q - snd (ptr_add cur 1)))) else cell_at ?m1 q)"
      have "copy_construct_loop E d_first first cur (length (x # xs)) m
              = Ret (ptr_add cur (length (x # xs))) m'"
        using step a(1) by simp
      moreover have "length (y # ys) = length (x # xs)" using a(2) by simp
      moreover have "faithful E \<longrightarrow> y # ys = x # xs"
        using a(3) Some by (auto simp: faithful_def)
      moreover have "shape m' = shape m" using a(4) by simp
      moreover have "performed {Copy_ctor} (length (x # xs)) 0 m m'"
        using performed_step[of ?m1 m "Done Copy_ctor y" "{Copy_ctor}" "length xs" 0 m' "{Copy_ctor}"] a(5)
        by simp
      moreover have "\<forall>q. cell_at m' q =
               (if fst q = fst cur \<and> snd cur \<le> snd q \<and> snd q < snd cur + length (x # xs)
                then Some (Live ((y # ys) ! (snd q - snd cur))) else cell_at m q)"
      proof
        fix q
        show "cell_at m' q =
               (if fst q = fst cur \<and> snd cur \<le> snd q \<and> snd q < snd cur + length (x # xs)
                then Some (Live ((y # ys) ! (snd q - snd cur))) else cell_at m q)"
        proof (cases "q = cur")
          case True
          then show ?thesis using a(6)[rule_format, of cur] dst by (simp add: cell_at_put_cell)
        next
          case False
          then have "fst q = fst cur \<and> snd cur \<le> snd q \<longrightarrow> snd cur < snd q"
            by (auto simp: prod_eq_iff)
          then show ?thesis using a(6)[rule_format, of q] False
            by (auto simp: cell_at_put_cell nth_Cons' Suc_diff_Suc)
        qed
      qed
      ultimately show ?thesis by blast
    next
      fix m' c
      assume a: "copy_construct_loop E d_first (ptr_add first 1) (ptr_add cur 1) (length xs) ?m1 =
                   Thrown elem_exn m'" "shape m' = shape ?m1"
        "performed {Copy_ctor, Dtor} c (c + (snd (ptr_add cur 1) - snd d_first)) ?m1 m'"
        "\<forall>q. cell_at m' q =
           (if fst q = fst (ptr_add cur 1) \<and> snd d_first \<le> snd q \<and> snd q < snd (ptr_add cur 1)
            then Some Raw else cell_at ?m1 q)"
      have "copy_construct_loop E d_first first cur (length (x # xs)) m = Thrown elem_exn m'"
        using step a(1) by simp
      moreover have "shape m' = shape m" using a(2) by simp
      moreover have "performed {Copy_ctor, Dtor} (Suc c) (Suc c + (snd cur - snd d_first)) m m'"
        using performed_step[of ?m1 m "Done Copy_ctor y" "{Copy_ctor, Dtor}" c
                "c + (snd (ptr_add cur 1) - snd d_first)" m' "{Copy_ctor, Dtor}"] a(3) Cons.prems(3)
        by (simp add: Suc_diff_le)
      moreover have "\<forall>q. cell_at m' q =
               (if fst q = fst cur \<and> snd d_first \<le> snd q \<and> snd q < snd cur
                then Some Raw else cell_at m q)"
        using a(4) dst Cons.prems(3) by (auto simp: cell_at_put_cell prod_eq_iff less_Suc_eq)
      ultimately show ?thesis by blast
    qed
  qed
qed


lemma value_construct_loop_spec:
  assumes "fst d_first = fst cur" "snd d_first \<le> snd cur"
    and "\<forall>i<n. cell_at m (ptr_add cur i) = Some Raw"
    and "\<forall>j. snd d_first \<le> j \<and> j < snd cur \<longrightarrow> (\<exists>y. cell_at m (fst cur, j) = Some (Live y))"
  shows "(\<exists>m' ys. value_construct_loop E d_first cur n m = Ret (ptr_add cur n) m' \<and>
            length ys = n \<and> shape m' = shape m \<and>
            performed {Value_init} n 0 m m' \<and>
            (\<forall>q. cell_at m' q =
               (if fst q = fst cur \<and> snd cur \<le> snd q \<and> snd q < snd cur + n
                then Some (Live (ys ! (snd q - snd cur))) else cell_at m q))) \<or>
         (\<exists>m' c. value_construct_loop E d_first cur n m = Thrown elem_exn m' \<and>
            shape m' = shape m \<and>
            performed {Value_init, Dtor} c (c + (snd cur - snd d_first)) m m' \<and>
            (\<forall>q. cell_at m' q =
               (if fst q = fst cur \<and> snd d_first \<le> snd q \<and> snd q < snd cur
                then Some Raw else cell_at m q)))"
  using assms
proof (induction n arbitrary: cur m)
  case 0
  then show ?case by auto
next
  case (Suc n)
  have dst: "cell_at m cur = Some Raw"
    using Suc.prems(3) by (metis ptr_add_0 zero_less_Suc)
  show ?case
  proof (cases "value_init E (trace m)")
    case None
    let ?m1 = "record_event (Failed Value_init) m"
    have "\<forall>i<snd cur - snd d_first. \<exists>y. cell_at ?m1 (ptr_add d_first i) = Some (Live y)"
      using Suc.prems(1,2,4) by (auto simp: ptr_add_def)
    from destroy_n_spec[OF this] obtain m' where m':
      "destroy_n d_first (snd cur - snd d_first) ?m1 = Ret () m'" "shape m' = shape ?m1"
      "performed {Dtor} 0 (snd cur - snd d_first) ?m1 m'"
      "\<forall>q. cell_at m' q =
          (if fst q = fst d_first \<and> snd d_first \<le> snd q \<and> snd q < snd d_first + (snd cur - snd d_first)
           then Some Raw else cell_at ?m1 q)"
      by blast
    have "value_construct_loop E d_first cur (Suc n) m = Thrown elem_exn m'"
      using dst None m'(1)
      by (simp add: placement_new_Raw destroy_built_def rethrow_after_def)
    moreover have "shape m' = shape m" using m'(2) by simp
    moreover have "performed {Value_init, Dtor} 0 (0 + (snd cur - snd d_first)) m m'"
      using performed_step[of ?m1 m "Failed Value_init" "{Dtor}" 0 "snd cur - snd d_first" m'
              "{Value_init, Dtor}"] m'(3)
      by simp
    moreover have "\<forall>q. cell_at m' q =
               (if fst q = fst cur \<and> snd d_first \<le> snd q \<and> snd q < snd cur
                then Some Raw else cell_at m q)"
      using m'(4) Suc.prems(1,2) by auto
    ultimately show ?thesis by blast
  next
    case (Some y)
    let ?m1 = "record_event (Done Value_init y) (put_cell cur (Live y) m)"
    have step: "placement_new cur (Value_init, value_init E) m = Ret cur ?m1"
      using dst Some by (simp add: placement_new_Raw)
    have p2: "fst d_first = fst (ptr_add cur 1)" using Suc.prems(1) by simp
    have p3: "snd d_first \<le> snd (ptr_add cur 1)" using Suc.prems(2) by simp
    have p5: "\<forall>i<n. cell_at ?m1 (ptr_add (ptr_add cur 1) i) = Some Raw"
    proof (intro allI impI)
      fix i assume "i < n"
      then have "cell_at m (ptr_add cur (Suc i)) = Some Raw"
        using Suc.prems(3) by force
      moreover have "ptr_add cur (Suc i) \<noteq> cur" by (simp add: ptr_add_def prod_eq_iff)
      ultimately show "cell_at ?m1 (ptr_add (ptr_add cur 1) i) = Some Raw"
        by (simp add: cell_at_put_cell)
    qed
    have p6: "\<forall>j. snd d_first \<le> j \<and> j < snd (ptr_add cur 1) \<longrightarrow>
                (\<exists>z. cell_at ?m1 (fst (ptr_add cur 1), j) = Some (Live z))"
      using Suc.prems(4) dst by (auto simp: cell_at_put_cell prod_eq_iff less_Suc_eq)
    from Suc.IH[OF p2 p3 p5 p6]
    show ?thesis
    proof (elim disjE exE conjE)
      fix m' ys
      assume a: "value_construct_loop E d_first (ptr_add cur 1) n ?m1 =
                   Ret (ptr_add (ptr_add cur 1) n) m'"
        "length ys = n" "shape m' = shape ?m1"
        "performed {Value_init} n 0 ?m1 m'"
        "\<forall>q. cell_at m' q =
           (if fst q = fst (ptr_add cur 1) \<and> snd (ptr_add cur 1) \<le> snd q \<and>
               snd q < snd (ptr_add cur 1) + n
            then Some (Live (ys ! (snd q - snd (ptr_add cur 1)))) else cell_at ?m1 q)"
      have "value_construct_loop E d_first cur (Suc n) m = Ret (ptr_add cur (Suc n)) m'"
        using step a(1) by simp
      moreover have "length (y # ys) = Suc n" using a(2) by simp
      moreover have "shape m' = shape m" using a(3) by simp
      moreover have "performed {Value_init} (Suc n) 0 m m'"
        using performed_step[of ?m1 m "Done Value_init y" "{Value_init}" n 0 m' "{Value_init}"] a(4)
        by simp
      moreover have "\<forall>q. cell_at m' q =
               (if fst q = fst cur \<and> snd cur \<le> snd q \<and> snd q < snd cur + Suc n
                then Some (Live ((y # ys) ! (snd q - snd cur))) else cell_at m q)"
      proof
        fix q
        show "cell_at m' q =
               (if fst q = fst cur \<and> snd cur \<le> snd q \<and> snd q < snd cur + Suc n
                then Some (Live ((y # ys) ! (snd q - snd cur))) else cell_at m q)"
        proof (cases "q = cur")
          case True
          then show ?thesis using a(5)[rule_format, of cur] dst by (simp add: cell_at_put_cell)
        next
          case False
          then have "fst q = fst cur \<and> snd cur \<le> snd q \<longrightarrow> snd cur < snd q"
            by (auto simp: prod_eq_iff)
          then show ?thesis using a(5)[rule_format, of q] False
            by (auto simp: cell_at_put_cell nth_Cons' Suc_diff_Suc)
        qed
      qed
      ultimately show ?thesis by blast
    next
      fix m' c
      assume a: "value_construct_loop E d_first (ptr_add cur 1) n ?m1 = Thrown elem_exn m'"
        "shape m' = shape ?m1"
        "performed {Value_init, Dtor} c (c + (snd (ptr_add cur 1) - snd d_first)) ?m1 m'"
        "\<forall>q. cell_at m' q =
           (if fst q = fst (ptr_add cur 1) \<and> snd d_first \<le> snd q \<and> snd q < snd (ptr_add cur 1)
            then Some Raw else cell_at ?m1 q)"
      have "value_construct_loop E d_first cur (Suc n) m = Thrown elem_exn m'"
        using step a(1) by simp
      moreover have "shape m' = shape m" using a(2) by simp
      moreover have "performed {Value_init, Dtor} (Suc c) (Suc c + (snd cur - snd d_first)) m m'"
        using performed_step[of ?m1 m "Done Value_init y" "{Value_init, Dtor}" c
                "c + (snd (ptr_add cur 1) - snd d_first)" m' "{Value_init, Dtor}"] a(3) Suc.prems(2)
        by (simp add: Suc_diff_le)
      moreover have "\<forall>q. cell_at m' q =
               (if fst q = fst cur \<and> snd d_first \<le> snd q \<and> snd q < snd cur
                then Some Raw else cell_at m q)"
      proof
        fix q
        show "cell_at m' q =
               (if fst q = fst cur \<and> snd d_first \<le> snd q \<and> snd q < snd cur
                then Some Raw else cell_at m q)"
        proof (cases "q = cur")
          case True
          then show ?thesis using a(4)[rule_format, of cur] dst Suc.prems(1,2)
            by (simp add: cell_at_put_cell)
        next
          case False
          then have "fst q = fst cur \<and> snd q \<le> snd cur \<longrightarrow> snd q < snd cur"
            by (auto simp: prod_eq_iff)
          then show ?thesis using a(4)[rule_format, of q] False
            by (auto simp: cell_at_put_cell less_Suc_eq_le)
        qed
      qed
      ultimately show ?thesis by blast
    qed
  qed
qed

lemma move_construct_step:
  "cell_at m src = Some (Live x) \<Longrightarrow> cell_at m dst = Some Raw \<Longrightarrow>
   move_construct E dst src m =
     (case move_ctor E (trace m) x of
        (None, x') \<Rightarrow> Thrown elem_exn (record_event (Failed Move_ctor) (put_cell src (Live x') m))
      | (Some y, x') \<Rightarrow>
          Ret dst (record_event (Done Move_ctor y)
                     (put_cell dst (Live y) (put_cell src (Live x') m))))"
  by (simp add: move_construct_def)

lemma move_construct_loop_spec:
  assumes "fst first \<noteq> fst cur" "fst d_first = fst cur" "snd d_first \<le> snd cur"
    and "\<forall>i<length xs. cell_at m (ptr_add first i) = Some (Live (xs ! i))"
    and "\<forall>i<length xs. cell_at m (ptr_add cur i) = Some Raw"
    and "\<forall>j. snd d_first \<le> j \<and> j < snd cur \<longrightarrow> (\<exists>y. cell_at m (fst cur, j) = Some (Live y))"
  shows "(\<exists>m' ys zs. move_construct_loop E d_first first cur (length xs) m
                    = Ret (ptr_add cur (length xs)) m' \<and>
            length ys = length xs \<and> length zs = length xs \<and>
            (faithful E \<longrightarrow> ys = xs) \<and> shape m' = shape m \<and>
            performed {Move_ctor} (length xs) 0 m m' \<and>
            (\<forall>q. cell_at m' q =
               (if fst q = fst cur \<and> snd cur \<le> snd q \<and> snd q < snd cur + length xs
                then Some (Live (ys ! (snd q - snd cur)))
                else if fst q = fst first \<and> snd first \<le> snd q \<and> snd q < snd first + length xs
                then Some (Live (zs ! (snd q - snd first)))
                else cell_at m q))) \<or>
         (\<exists>m' c zs. move_construct_loop E d_first first cur (length xs) m = Thrown elem_exn m' \<and>
            length zs = length xs \<and> shape m' = shape m \<and>
            (\<exists>h x. fst (move_ctor E h x) = None) \<and>
            performed {Move_ctor, Dtor} c (c + (snd cur - snd d_first)) m m' \<and>
            (\<forall>q. cell_at m' q =
               (if fst q = fst cur \<and> snd d_first \<le> snd q \<and> snd q < snd cur
                then Some Raw
                else if fst q = fst first \<and> snd first \<le> snd q \<and> snd q < snd first + length xs
                then Some (Live (zs ! (snd q - snd first)))
                else cell_at m q)))"
  using assms
proof (induction xs arbitrary: first cur m)
  case Nil
  then show ?case by auto
next
  case (Cons x xs)
  have src: "cell_at m first = Some (Live x)"
    using Cons.prems(4) by (metis length_greater_0_conv list.distinct(1) nth_Cons_0 ptr_add_0)
  have dst: "cell_at m cur = Some Raw"
    using Cons.prems(5) by (metis length_greater_0_conv list.distinct(1) ptr_add_0)
  have ne: "first \<noteq> cur" using Cons.prems(1) by auto
  obtain r x' where mv: "move_ctor E (trace m) x = (r, x')" by (cases "move_ctor E (trace m) x")
  let ?m0 = "put_cell first (Live x') m"
  have c0: "\<And>q. cell_at ?m0 q = (if q = first then Some (Live x') else cell_at m q)"
    using src by (simp add: cell_at_put_cell)
  show ?case
  proof (cases r)
    case None
    let ?m1 = "record_event (Failed Move_ctor) ?m0"
    have "\<forall>i<snd cur - snd d_first. \<exists>y. cell_at ?m1 (ptr_add d_first i) = Some (Live y)"
      using Cons.prems(1,2,3,6) by (auto simp: ptr_add_def c0)
    from destroy_n_spec[OF this] obtain m' where m':
      "destroy_n d_first (snd cur - snd d_first) ?m1 = Ret () m'" "shape m' = shape ?m1"
      "performed {Dtor} 0 (snd cur - snd d_first) ?m1 m'"
      "\<forall>q. cell_at m' q =
          (if fst q = fst d_first \<and> snd d_first \<le> snd q \<and> snd q < snd d_first + (snd cur - snd d_first)
           then Some Raw else cell_at ?m1 q)"
      by blast
    have "move_construct_loop E d_first first cur (length (x # xs)) m = Thrown elem_exn m'"
      using src dst None mv m'(1)
      by (simp add: move_construct_step destroy_built_def rethrow_after_def)
    moreover have "length (x' # xs) = length (x # xs)" by simp
    moreover have "shape m' = shape m" using m'(2) by simp
    moreover have "\<exists>h x. fst (move_ctor E h x) = None"
      using mv None by (metis fst_conv)
    moreover have "performed {Move_ctor, Dtor} 0 (0 + (snd cur - snd d_first)) m m'"
      using performed_step[of ?m1 m "Failed Move_ctor" "{Dtor}" 0 "snd cur - snd d_first" m'
              "{Move_ctor, Dtor}"] m'(3)
      by simp
    moreover have "\<forall>q. cell_at m' q =
               (if fst q = fst cur \<and> snd d_first \<le> snd q \<and> snd q < snd cur
                then Some Raw
                else if fst q = fst first \<and> snd first \<le> snd q \<and> snd q < snd first + length (x # xs)
                then Some (Live ((x' # xs) ! (snd q - snd first)))
                else cell_at m q)"
    proof
      fix q
      show "cell_at m' q =
               (if fst q = fst cur \<and> snd d_first \<le> snd q \<and> snd q < snd cur
                then Some Raw
                else if fst q = fst first \<and> snd first \<le> snd q \<and> snd q < snd first + length (x # xs)
                then Some (Live ((x' # xs) ! (snd q - snd first)))
                else cell_at m q)"
      proof (cases "q = first")
        case True
        then show ?thesis using m'(4)[rule_format, of first] Cons.prems(1,2,3) by (simp add: c0)
      next
        case False
        have "fst q = fst first \<and> snd first \<le> snd q \<and> snd q < snd first + length (x # xs) \<Longrightarrow>
              cell_at m q = Some (Live ((x' # xs) ! (snd q - snd first)))"
        proof -
          assume h: "fst q = fst first \<and> snd first \<le> snd q \<and> snd q < snd first + length (x # xs)"
          then have lt: "snd first < snd q" using False by (auto simp: prod_eq_iff)
          have "q = ptr_add first (snd q - snd first)" using h by (simp add: ptr_add_def prod_eq_iff)
          moreover have "snd q - snd first < length (x # xs)" using h by auto
          ultimately have "cell_at m q = Some (Live ((x # xs) ! (snd q - snd first)))"
            using Cons.prems(4) by metis
          then show ?thesis using lt by (simp add: nth_Cons')
        qed
        then show ?thesis using m'(4)[rule_format, of q] False Cons.prems(2,3)
          by (auto simp: c0)
      qed
    qed
    ultimately show ?thesis by blast
  next
    case (Some y)
    let ?m1 = "record_event (Done Move_ctor y) (put_cell cur (Live y) ?m0)"
    have step: "move_construct E cur first m = Ret cur ?m1"
      using src dst Some mv by (simp add: move_construct_step)
    have c1: "\<And>q. cell_at (put_cell cur (Live y) ?m0) q =
                (if q = cur then Some (Live y) else if q = first then Some (Live x')
                 else cell_at m q)"
      using dst ne src by (simp add: cell_at_put_cell c0)
    have p1: "fst (ptr_add first 1) \<noteq> fst (ptr_add cur 1)" using Cons.prems(1) by simp
    have p2: "fst d_first = fst (ptr_add cur 1)" using Cons.prems(2) by simp
    have p3: "snd d_first \<le> snd (ptr_add cur 1)" using Cons.prems(3) by simp
    have p4: "\<forall>i<length xs. cell_at ?m1 (ptr_add (ptr_add first 1) i) = Some (Live (xs ! i))"
    proof (intro allI impI)
      fix i assume "i < length xs"
      then have "cell_at m (ptr_add first (Suc i)) = Some (Live (xs ! i))"
        using Cons.prems(4) by force
      moreover have "ptr_add first (Suc i) \<noteq> cur" using Cons.prems(1) by (auto simp: ptr_add_def)
      moreover have "ptr_add first (Suc i) \<noteq> first" by (simp add: ptr_add_def prod_eq_iff)
      ultimately show "cell_at ?m1 (ptr_add (ptr_add first 1) i) = Some (Live (xs ! i))"
        by (simp add: c1)
    qed
    have p5: "\<forall>i<length xs. cell_at ?m1 (ptr_add (ptr_add cur 1) i) = Some Raw"
    proof (intro allI impI)
      fix i assume "i < length xs"
      then have "cell_at m (ptr_add cur (Suc i)) = Some Raw"
        using Cons.prems(5) by force
      moreover have "ptr_add cur (Suc i) \<noteq> cur" by (simp add: ptr_add_def prod_eq_iff)
      moreover have "ptr_add cur (Suc i) \<noteq> first" using Cons.prems(1) by (auto simp: ptr_add_def)
      ultimately show "cell_at ?m1 (ptr_add (ptr_add cur 1) i) = Some Raw"
        by (simp add: c1)
    qed
    have p6: "\<forall>j. snd d_first \<le> j \<and> j < snd (ptr_add cur 1) \<longrightarrow>
                (\<exists>z. cell_at ?m1 (fst (ptr_add cur 1), j) = Some (Live z))"
      using Cons.prems(1,6) by (auto simp: c1 prod_eq_iff less_Suc_eq)
    have srcq: "\<And>q. q \<noteq> first \<Longrightarrow>
                  fst q = fst first \<and> snd first \<le> snd q \<and> snd q < snd first + length (x # xs) \<longleftrightarrow>
                  fst q = fst first \<and> Suc (snd first) \<le> snd q \<and> snd q < Suc (snd first) + length xs"
      by (auto simp: prod_eq_iff)
    from Cons.IH[OF p1 p2 p3 p4 p5 p6]
    show ?thesis
    proof (elim disjE exE conjE)
      fix m' ys zs
      assume a: "move_construct_loop E d_first (ptr_add first 1) (ptr_add cur 1) (length xs) ?m1 =
                   Ret (ptr_add (ptr_add cur 1) (length xs)) m'"
        "length ys = length xs" "length zs = length xs" "faithful E \<longrightarrow> ys = xs"
        "shape m' = shape ?m1"
        "performed {Move_ctor} (length xs) 0 ?m1 m'"
        "\<forall>q. cell_at m' q =
           (if fst q = fst (ptr_add cur 1) \<and> snd (ptr_add cur 1) \<le> snd q \<and>
               snd q < snd (ptr_add cur 1) + length xs
            then Some (Live (ys ! (snd q - snd (ptr_add cur 1))))
            else if fst q = fst (ptr_add first 1) \<and> snd (ptr_add first 1) \<le> snd q \<and>
               snd q < snd (ptr_add first 1) + length xs
            then Some (Live (zs ! (snd q - snd (ptr_add first 1))))
            else cell_at ?m1 q)"
      have "move_construct_loop E d_first first cur (length (x # xs)) m
              = Ret (ptr_add cur (length (x # xs))) m'"
        using step a(1) by simp
      moreover have "length (y # ys) = length (x # xs)" using a(2) by simp
      moreover have "length (x' # zs) = length (x # xs)" using a(3) by simp
      moreover have "faithful E \<longrightarrow> y # ys = x # xs"
        using a(4) Some mv by (auto simp: faithful_def) (metis fst_conv)
      moreover have "shape m' = shape m" using a(5) by simp
      moreover have "performed {Move_ctor} (length (x # xs)) 0 m m'"
        using performed_step[of ?m1 m "Done Move_ctor y" "{Move_ctor}" "length xs" 0 m' "{Move_ctor}"] a(6)
        by simp
      moreover have "\<forall>q. cell_at m' q =
               (if fst q = fst cur \<and> snd cur \<le> snd q \<and> snd q < snd cur + length (x # xs)
                then Some (Live ((y # ys) ! (snd q - snd cur)))
                else if fst q = fst first \<and> snd first \<le> snd q \<and> snd q < snd first + length (x # xs)
                then Some (Live ((x' # zs) ! (snd q - snd first)))
                else cell_at m q)"
      proof
        fix q
        show "cell_at m' q =
               (if fst q = fst cur \<and> snd cur \<le> snd q \<and> snd q < snd cur + length (x # xs)
                then Some (Live ((y # ys) ! (snd q - snd cur)))
                else if fst q = fst first \<and> snd first \<le> snd q \<and> snd q < snd first + length (x # xs)
                then Some (Live ((x' # zs) ! (snd q - snd first)))
                else cell_at m q)"
        proof (cases "q = cur")
          case True
          then show ?thesis using a(7)[rule_format, of cur] Cons.prems(1) by (simp add: c1)
        next
          case False
          note nc = this
          show ?thesis
          proof (cases "q = first")
            case True
            then show ?thesis using a(7)[rule_format, of first] Cons.prems(1) ne by (simp add: c1)
          next
            case False
            have "fst q = fst cur \<and> snd cur \<le> snd q \<longrightarrow> snd cur < snd q"
              using nc by (auto simp: prod_eq_iff)
            moreover have "fst q = fst first \<and> snd first \<le> snd q \<longrightarrow> snd first < snd q"
              using False by (auto simp: prod_eq_iff)
            ultimately show ?thesis using a(7)[rule_format, of q] False nc Cons.prems(1)
              by (auto simp: c1 nth_Cons' Suc_diff_Suc)
          qed
        qed
      qed
      ultimately show ?thesis by blast
    next
      fix m' c zs h0 x0
      assume a: "move_construct_loop E d_first (ptr_add first 1) (ptr_add cur 1) (length xs) ?m1 =
                   Thrown elem_exn m'" "length zs = length xs" "shape m' = shape ?m1"
        "fst (move_ctor E h0 x0) = None"
        "performed {Move_ctor, Dtor} c (c + (snd (ptr_add cur 1) - snd d_first)) ?m1 m'"
        "\<forall>q. cell_at m' q =
           (if fst q = fst (ptr_add cur 1) \<and> snd d_first \<le> snd q \<and> snd q < snd (ptr_add cur 1)
            then Some Raw
            else if fst q = fst (ptr_add first 1) \<and> snd (ptr_add first 1) \<le> snd q \<and>
               snd q < snd (ptr_add first 1) + length xs
            then Some (Live (zs ! (snd q - snd (ptr_add first 1))))
            else cell_at ?m1 q)"
      have "move_construct_loop E d_first first cur (length (x # xs)) m = Thrown elem_exn m'"
        using step a(1) by simp
      moreover have "length (x' # zs) = length (x # xs)" using a(2) by simp
      moreover have "shape m' = shape m" using a(3) by simp
      moreover have "\<exists>h x. fst (move_ctor E h x) = None" using a(4) by blast
      moreover have "performed {Move_ctor, Dtor} (Suc c) (Suc c + (snd cur - snd d_first)) m m'"
        using performed_step[of ?m1 m "Done Move_ctor y" "{Move_ctor, Dtor}" c
                "c + (snd (ptr_add cur 1) - snd d_first)" m' "{Move_ctor, Dtor}"] a(5) Cons.prems(3)
        by (simp add: Suc_diff_le)
      moreover have "\<forall>q. cell_at m' q =
               (if fst q = fst cur \<and> snd d_first \<le> snd q \<and> snd q < snd cur
                then Some Raw
                else if fst q = fst first \<and> snd first \<le> snd q \<and> snd q < snd first + length (x # xs)
                then Some (Live ((x' # zs) ! (snd q - snd first)))
                else cell_at m q)"
      proof
        fix q
        show "cell_at m' q =
               (if fst q = fst cur \<and> snd d_first \<le> snd q \<and> snd q < snd cur
                then Some Raw
                else if fst q = fst first \<and> snd first \<le> snd q \<and> snd q < snd first + length (x # xs)
                then Some (Live ((x' # zs) ! (snd q - snd first)))
                else cell_at m q)"
        proof (cases "q = cur")
          case True
          then show ?thesis using a(6)[rule_format, of cur] Cons.prems(1,3) ne dst by (simp add: c1)
        next
          case False
          note nc = this
          show ?thesis
          proof (cases "q = first")
            case True
            then show ?thesis using a(6)[rule_format, of first] Cons.prems(1) ne by (simp add: c1)
          next
            case False
            have "fst q = fst cur \<and> snd q \<le> snd cur \<longrightarrow> snd q < snd cur"
              using nc by (auto simp: prod_eq_iff)
            moreover have "fst q = fst first \<and> snd first \<le> snd q \<longrightarrow> snd first < snd q"
              using False by (auto simp: prod_eq_iff)
            ultimately show ?thesis using a(6)[rule_format, of q] False nc Cons.prems(1)
              by (auto simp: c1 nth_Cons' Suc_diff_Suc less_Suc_eq_le)
          qed
        qed
      qed
      ultimately show ?thesis by blast
    qed
  qed
qed

subsection \<open>Blocks and slots\<close>

lemma cell_at_heap:
  "heap m a = Some cs \<Longrightarrow> cell_at m (Some a, i) = (if i < length cs then Some (cs ! i) else None)"
  by (simp add: cell_at_def)

lemma cell_at_no_block [simp]: "heap m a = None \<Longrightarrow> cell_at m (Some a, i) = None"
  by (simp add: cell_at_def)

lemma cell_at_null [simp]: "cell_at m (None, i) = None"
  by (simp add: cell_at_def)

lemma shape_heap_None: "shape m = shape m' \<Longrightarrow> heap m a = None \<longleftrightarrow> heap m' a = None"
  by (auto simp: shape_def fun_eq_iff dest!: spec[of _ a])

lemma shape_next_addr: "shape m = shape m' \<Longrightarrow> next_addr m = next_addr m'"
  by (simp add: shape_def)

lemma shape_heap_ok: "shape m = shape m' \<Longrightarrow> heap_ok m \<Longrightarrow> heap_ok m'"
  unfolding heap_ok_def using shape_heap_None shape_next_addr by metis

lemma heap_eqI:
  assumes "shape m = shape m'" and "\<And>q. cell_at m q = cell_at m' q"
  shows "heap m = heap m'"
proof
  fix a
  show "heap m a = heap m' a"
  proof (cases "heap m a")
    case None
    then show ?thesis using shape_heap_None[OF assms(1)] by simp
  next
    case (Some cs)
    then obtain cs' where cs': "heap m' a = Some cs'"
      using shape_heap_None[OF assms(1), of a] by auto
    have len: "length cs = length cs'"
      using assms(1) Some cs' by (auto simp: shape_def fun_eq_iff dest!: spec[of _ a])
    have "cs = cs'"
    proof (rule nth_equalityI[OF len])
      fix i assume "i < length cs"
      then show "cs ! i = cs' ! i"
        using assms(2)[of "(Some a, i)"] Some cs' len by (simp add: cell_at_heap)
    qed
    then show ?thesis using Some cs' by simp
  qed
qed

lemma performed_cong:
  "trace m = trace m0 \<Longrightarrow> trace m' = trace m0' \<Longrightarrow>
   performed K c d m m' = performed K c d m0 m0'"
  by (simp add: performed_def)

subsection \<open>Allocation\<close>

lemma size_t_fits: "0 < s \<Longrightarrow> n * s < 2 ^ 64 \<Longrightarrow> size_t_mod (n * s) div s = n"
  by (simp add: size_t_mod_def)

lemma RawMemory_ctor_fail:
  "0 < n \<Longrightarrow> \<not> new_ok E (next_addr m) (size_t_mod (n * sizeof_T E)) \<Longrightarrow>
   RawMemory_ctor E n m = Thrown bad_alloc m"
  by (simp add: RawMemory_ctor_def Allocate_def operator_new_def)

lemma RawMemory_ctor_ok:
  assumes "0 < n" "new_ok E (next_addr m) (size_t_mod (n * sizeof_T E))"
    and "0 < sizeof_T E" "n * sizeof_T E < 2 ^ 64" "heap_ok m"
  shows "\<exists>m1. RawMemory_ctor E n m = Ret \<lparr>buffer_m = (Some (next_addr m), 0), capacity_m = n\<rparr> m1 \<and>
           heap m1 = (heap m)(next_addr m \<mapsto> replicate n Raw) \<and>
           next_addr m1 = Suc (next_addr m) \<and> trace m1 = trace m \<and> heap_ok m1 \<and>
           heap m (next_addr m) = None \<and>
           (\<forall>q. cell_at m1 q =
              (if fst q = Some (next_addr m) then (if snd q < n then Some Raw else None)
               else cell_at m q))"
proof -
  let ?a = "next_addr m"
  let ?m1 = "m\<lparr>heap := (heap m)(?a \<mapsto> replicate n Raw), next_addr := Suc ?a\<rparr>"
  have fresh: "heap m ?a = None" using assms(5) by (simp add: heap_ok_def)
  have "RawMemory_ctor E n m = Ret \<lparr>buffer_m = (Some ?a, 0), capacity_m = n\<rparr> ?m1"
    using assms(1-4) by (simp add: RawMemory_ctor_def Allocate_def operator_new_def size_t_fits)
  moreover have "heap_ok ?m1" using assms(5) by (simp add: heap_ok_def)
  moreover have "\<forall>q. cell_at ?m1 q =
              (if fst q = Some ?a then (if snd q < n then Some Raw else None) else cell_at m q)"
    by (auto simp: cell_at_def split: option.splits)
  ultimately show ?thesis using fresh by auto
qed

lemma RawMemory_dtor_null [simp]:
  "RawMemory_dtor \<lparr>buffer_m = (None, i), capacity_m = c\<rparr> m = Ret () m"
  by (simp add: RawMemory_dtor_def Deallocate_def operator_delete_def)

lemma RawMemory_dtor_block:
  "heap m b \<noteq> None \<Longrightarrow>
   RawMemory_dtor \<lparr>buffer_m = (Some b, 0), capacity_m = c\<rparr> m
     = Ret () (m\<lparr>heap := (heap m)(b := None)\<rparr>)"
  by (simp add: RawMemory_dtor_def Deallocate_def operator_delete_def)

lemma cell_at_freed:
  "cell_at (m\<lparr>heap := (heap m)(b := None)\<rparr>) q = (if fst q = Some b then None else cell_at m q)"
  by (auto simp: cell_at_def split: option.splits)

lemma heap_ok_freed: "heap_ok m \<Longrightarrow> heap_ok (m\<lparr>heap := (heap m)(b := None)\<rparr>)"
  by (simp add: heap_ok_def)

subsection \<open>Invariant L in terms of slots\<close>

lemma all_Live_values:
  "list_all is_Live ys \<Longrightarrow>
   length (List.map_filter value_of ys) = length ys \<and>
   (\<forall>i<length ys. ys ! i = Live (List.map_filter value_of ys ! i))"
proof (induction ys)
  case Nil
  then show ?case by (simp add: List.map_filter_def)
next
  case (Cons y ys)
  then obtain x where "y = Live x" by (cases y) auto
  then show ?case using Cons by (auto simp: List.map_filter_def nth_Cons')
qed

lemma all_Raw_nth: "list_all is_Raw ys \<Longrightarrow> i < length ys \<Longrightarrow> ys ! i = Raw"
  by (metis is_Raw.elims(2) list_all_length)

lemma invariant_L_cells:
  assumes "invariant_L v m"
  shows "\<exists>xs. length xs = size_m v \<and> elements v m = xs \<and>
           snd (buffer_m (data_m v)) = 0 \<and>
           size_m v \<le> capacity_m (data_m v) \<and> capacity_m (data_m v) < 2 ^ 64 \<and>
           (fst (buffer_m (data_m v)) = None \<longleftrightarrow> capacity_m (data_m v) = 0) \<and>
           (\<forall>b. fst (buffer_m (data_m v)) = Some b \<longrightarrow>
                 map_option length (heap m b) = Some (capacity_m (data_m v))) \<and>
           (\<forall>i<size_m v. cell_at m (ptr_add (buffer_m (data_m v)) i) = Some (Live (xs ! i))) \<and>
           (\<forall>i. size_m v \<le> i \<and> i < capacity_m (data_m v) \<longrightarrow>
                 cell_at m (ptr_add (buffer_m (data_m v)) i) = Some Raw)"
proof -
  obtain b i where buf: "buffer_m (data_m v) = (b, i)" by (cases "buffer_m (data_m v)")
  from assms obtain cs where cs: "cells_of v m = Some cs"
    "length cs = capacity_m (data_m v)" "size_m v \<le> capacity_m (data_m v)"
    "capacity_m (data_m v) < 2 ^ 64" "b = None \<longleftrightarrow> capacity_m (data_m v) = 0"
    "list_all is_Live (take (size_m v) cs)" "list_all is_Raw (drop (size_m v) cs)"
    by (auto simp: invariant_L_def buf split: option.splits)
  have i0: "i = 0" using cs(1) buf by (auto simp: cells_of_def split: option.splits if_splits)
  let ?xs = "List.map_filter value_of (take (size_m v) cs)"
  have lx: "length ?xs = size_m v" using all_Live_values[OF cs(6)] cs(2,3) by simp
  have el: "elements v m = ?xs" by (simp add: elements_def cs(1))
  have live: "\<forall>j<size_m v. cs ! j = Live (?xs ! j)"
    using all_Live_values[OF cs(6)] cs(2,3) by auto
  have raw: "\<forall>j. size_m v \<le> j \<and> j < capacity_m (data_m v) \<longrightarrow> cs ! j = Raw"
  proof (intro allI impI)
    fix j assume j: "size_m v \<le> j \<and> j < capacity_m (data_m v)"
    then have "drop (size_m v) cs ! (j - size_m v) = Raw"
      using all_Raw_nth[OF cs(7), of "j - size_m v"] cs(2) by auto
    then show "cs ! j = Raw" using j cs(2) by simp
  qed
  show ?thesis
  proof (cases b)
    case None
    then have "capacity_m (data_m v) = 0" using cs(5) by simp
    then show ?thesis using lx el buf i0 None cs(3,4) by (intro exI[of _ ?xs]) auto
  next
    case (Some a)
    then have h: "heap m a = Some cs" using cs(1) buf i0 by (simp add: cells_of_def)
    show ?thesis
      using lx el buf i0 Some cs(2,3,4,5) h live raw
      by (intro exI[of _ ?xs]) (auto simp: ptr_add_def cell_at_heap)
  qed
qed

lemma invariant_L_intro:
  assumes "buffer_m (data_m v) = (Some a, 0)"
    and "map_option length (heap m a) = Some (capacity_m (data_m v))"
    and "0 < capacity_m (data_m v)" "capacity_m (data_m v) < 2 ^ 64"
    and "length xs = size_m v" "size_m v \<le> capacity_m (data_m v)"
    and "\<forall>i<size_m v. cell_at m (Some a, i) = Some (Live (xs ! i))"
    and "\<forall>i. size_m v \<le> i \<and> i < capacity_m (data_m v) \<longrightarrow> cell_at m (Some a, i) = Some Raw"
  shows "invariant_L v m \<and> elements v m = xs"
proof -
  from assms(2) obtain cs where cs: "heap m a = Some cs" "length cs = capacity_m (data_m v)"
    by auto
  have c: "cells_of v m = Some cs" using assms(1) cs(1) by (simp add: cells_of_def)
  have tk: "take (size_m v) cs = map Live xs"
  proof (rule nth_equalityI)
    show "length (take (size_m v) cs) = length (map Live xs)" using assms(5,6) cs(2) by simp
  next
    fix i assume "i < length (take (size_m v) cs)"
    then have i: "i < size_m v" by simp
    then show "take (size_m v) cs ! i = map Live xs ! i"
      using assms(5,6,7) cs by (auto simp: cell_at_heap split: if_splits)
  qed
  have dr: "drop (size_m v) cs = replicate (capacity_m (data_m v) - size_m v) Raw"
  proof (rule nth_equalityI)
    show "length (drop (size_m v) cs) = length (replicate (capacity_m (data_m v) - size_m v) Raw)"
      using cs(2) by simp
  next
    fix i assume "i < length (drop (size_m v) cs)"
    then have i: "size_m v + i < capacity_m (data_m v)" using cs(2) by simp
    then have "cell_at m (Some a, size_m v + i) = Some Raw" using assms(8) by simp
    then show "drop (size_m v) cs ! i = replicate (capacity_m (data_m v) - size_m v) Raw ! i"
      using i cs by (auto simp: cell_at_heap split: if_splits)
  qed
  have "list_all is_Live (map Live xs)" by (simp add: list_all_iff)
  moreover have "list_all is_Raw (replicate (capacity_m (data_m v) - size_m v) Raw)"
    by (simp add: list_all_iff)
  moreover have "List.map_filter value_of (map Live xs) = xs"
    by (induction xs) (auto simp: List.map_filter_def)
  ultimately show ?thesis
    using c cs(2) assms(1,3,4,6) tk dr by (simp add: invariant_L_def elements_def)
qed

subsection \<open>Relocation\<close>

lemma relocate_spec:
  assumes "fst first \<noteq> fst d_first"
    and "\<forall>i<length xs. cell_at m (ptr_add first i) = Some (Live (xs ! i))"
    and "\<forall>i<length xs. cell_at m (ptr_add d_first i) = Some Raw"
    and "out = (if moves_elements E then uninitialized_move_n E first (length xs) d_first m
                else uninitialized_copy_n E first (length xs) d_first m)"
    and "K = (if moves_elements E then {Move_ctor, Dtor} else {Copy_ctor, Dtor})"
  shows "(\<exists>m' ys zs. out = Ret (ptr_add d_first (length xs)) m' \<and>
            length ys = length xs \<and> length zs = length xs \<and>
            (faithful E \<longrightarrow> ys = xs) \<and> shape m' = shape m \<and>
            performed K (length xs) 0 m m' \<and>
            (\<forall>q. cell_at m' q =
               (if fst q = fst d_first \<and> snd d_first \<le> snd q \<and> snd q < snd d_first + length xs
                then Some (Live (ys ! (snd q - snd d_first)))
                else if fst q = fst first \<and> snd first \<le> snd q \<and> snd q < snd first + length xs
                then Some (Live (zs ! (snd q - snd first)))
                else cell_at m q))) \<or>
         (\<exists>m' c zs. out = Thrown elem_exn m' \<and> length zs = length xs \<and> shape m' = shape m \<and>
            performed K c c m m' \<and>
            (moves_elements E \<longrightarrow> (\<exists>h x. fst (move_ctor E h x) = None)) \<and>
            (\<not> moves_elements E \<longrightarrow> zs = xs) \<and>
            (\<forall>q. cell_at m' q =
               (if fst q = fst first \<and> snd first \<le> snd q \<and> snd q < snd first + length xs
                then Some (Live (zs ! (snd q - snd first)))
                else cell_at m q)))"
proof (cases "moves_elements E")
  case True
  have o: "out = move_construct_loop E d_first first d_first (length xs) m"
    using True assms(4) by (simp add: uninitialized_move_n_def)
  have k: "K = {Move_ctor, Dtor}" using True assms(5) by simp
  have vac: "\<forall>j. snd d_first \<le> j \<and> j < snd d_first \<longrightarrow> (\<exists>y. cell_at m (fst d_first, j) = Some (Live y))"
    by auto
  from move_construct_loop_spec[of first d_first d_first xs m E, OF assms(1) refl le_refl assms(2,3) vac]
  show ?thesis
  proof (elim disjE exE conjE)
    fix m' ys zs
    assume a: "move_construct_loop E d_first first d_first (length xs) m =
                 Ret (ptr_add d_first (length xs)) m'"
      "length ys = length xs" "length zs = length xs" "faithful E \<longrightarrow> ys = xs" "shape m' = shape m"
      "performed {Move_ctor} (length xs) 0 m m'"
      "\<forall>q. cell_at m' q =
         (if fst q = fst d_first \<and> snd d_first \<le> snd q \<and> snd q < snd d_first + length xs
          then Some (Live (ys ! (snd q - snd d_first)))
          else if fst q = fst first \<and> snd first \<le> snd q \<and> snd q < snd first + length xs
          then Some (Live (zs ! (snd q - snd first)))
          else cell_at m q)"
    have "performed K (length xs) 0 m m'" using a(6) k by (auto elim: performed_mono)
    then show ?thesis using a o by blast
  next
    fix m' c zs h0 x0
    assume a: "move_construct_loop E d_first first d_first (length xs) m = Thrown elem_exn m'"
      "length zs = length xs" "shape m' = shape m" "fst (move_ctor E h0 x0) = None"
      "performed {Move_ctor, Dtor} c (c + (snd d_first - snd d_first)) m m'"
      "\<forall>q. cell_at m' q =
         (if fst q = fst d_first \<and> snd d_first \<le> snd q \<and> snd q < snd d_first
          then Some Raw
          else if fst q = fst first \<and> snd first \<le> snd q \<and> snd q < snd first + length xs
          then Some (Live (zs ! (snd q - snd first)))
          else cell_at m q)"
    have "performed K c c m m'" using a(5) k by simp
    moreover have "\<forall>q. cell_at m' q =
               (if fst q = fst first \<and> snd first \<le> snd q \<and> snd q < snd first + length xs
                then Some (Live (zs ! (snd q - snd first)))
                else cell_at m q)"
    proof
      fix q show "cell_at m' q =
               (if fst q = fst first \<and> snd first \<le> snd q \<and> snd q < snd first + length xs
                then Some (Live (zs ! (snd q - snd first)))
                else cell_at m q)"
        using a(6)[rule_format, of q] by auto
    qed
    ultimately show ?thesis using a(1,2,3,4) o True by blast
  qed
next
  case False
  have o: "out = copy_construct_loop E d_first first d_first (length xs) m"
    using False assms(4) by (simp add: uninitialized_copy_n_def)
  have k: "K = {Copy_ctor, Dtor}" using False assms(5) by simp
  have same: "\<And>q. fst q = fst first \<and> snd first \<le> snd q \<and> snd q < snd first + length xs \<Longrightarrow>
                cell_at m q = Some (Live (xs ! (snd q - snd first)))"
  proof -
    fix q
    assume h: "fst q = fst first \<and> snd first \<le> snd q \<and> snd q < snd first + length xs"
    then have "q = ptr_add first (snd q - snd first)" by (simp add: ptr_add_def prod_eq_iff)
    moreover have "snd q - snd first < length xs" using h by auto
    ultimately show "cell_at m q = Some (Live (xs ! (snd q - snd first)))"
      using assms(2) by metis
  qed
  have vac: "\<forall>j. snd d_first \<le> j \<and> j < snd d_first \<longrightarrow> (\<exists>y. cell_at m (fst d_first, j) = Some (Live y))"
    by auto
  from copy_construct_loop_spec[of first d_first d_first xs m E, OF assms(1) refl le_refl assms(2,3) vac]
  show ?thesis
  proof (elim disjE exE conjE)
    fix m' ys
    assume a: "copy_construct_loop E d_first first d_first (length xs) m =
                 Ret (ptr_add d_first (length xs)) m'"
      "length ys = length xs" "faithful E \<longrightarrow> ys = xs" "shape m' = shape m"
      "performed {Copy_ctor} (length xs) 0 m m'"
      "\<forall>q. cell_at m' q =
         (if fst q = fst d_first \<and> snd d_first \<le> snd q \<and> snd q < snd d_first + length xs
          then Some (Live (ys ! (snd q - snd d_first))) else cell_at m q)"
    have "performed K (length xs) 0 m m'" using a(5) k by (auto elim: performed_mono)
    moreover have "\<forall>q. cell_at m' q =
         (if fst q = fst d_first \<and> snd d_first \<le> snd q \<and> snd q < snd d_first + length xs
          then Some (Live (ys ! (snd q - snd d_first)))
          else if fst q = fst first \<and> snd first \<le> snd q \<and> snd q < snd first + length xs
          then Some (Live (xs ! (snd q - snd first)))
          else cell_at m q)"
    proof
      fix q show "cell_at m' q =
         (if fst q = fst d_first \<and> snd d_first \<le> snd q \<and> snd q < snd d_first + length xs
          then Some (Live (ys ! (snd q - snd d_first)))
          else if fst q = fst first \<and> snd first \<le> snd q \<and> snd q < snd first + length xs
          then Some (Live (xs ! (snd q - snd first)))
          else cell_at m q)"
        using a(6)[rule_format, of q] same[of q] by auto
    qed
    ultimately show ?thesis using a(1,2,3,4) o by blast
  next
    fix m' c
    assume a: "copy_construct_loop E d_first first d_first (length xs) m = Thrown elem_exn m'"
      "shape m' = shape m"
      "performed {Copy_ctor, Dtor} c (c + (snd d_first - snd d_first)) m m'"
      "\<forall>q. cell_at m' q =
         (if fst q = fst d_first \<and> snd d_first \<le> snd q \<and> snd q < snd d_first
          then Some Raw else cell_at m q)"
    have "performed K c c m m'" using a(3) k by simp
    moreover have "\<forall>q. cell_at m' q =
               (if fst q = fst first \<and> snd first \<le> snd q \<and> snd q < snd first + length xs
                then Some (Live (xs ! (snd q - snd first)))
                else cell_at m q)"
    proof
      fix q show "cell_at m' q =
               (if fst q = fst first \<and> snd first \<le> snd q \<and> snd q < snd first + length xs
                then Some (Live (xs ! (snd q - snd first)))
                else cell_at m q)"
        using a(4)[rule_format, of q] same[of q] by auto
    qed
    ultimately show ?thesis using a(1,2) o False by blast
  qed
qed

subsection \<open>\<open>Reserve\<close>\<close>

lemma RawMemory_update [simp]:
  "(d::RawMemory)\<lparr>buffer_m := x, capacity_m := y\<rparr> = \<lparr>buffer_m = x, capacity_m = y\<rparr>"
  by (cases d) simp

lemma Reserve_alloc_fail:
  "capacity_m (data_m v) < n \<Longrightarrow> RawMemory_ctor E n m = Thrown e m1 \<Longrightarrow>
   Reserve E n (v, m) = Thrown e (v, m1)"
  by (simp add: Reserve_def RawMemory_Capacity_def)

lemma Reserve_Thrown:
  assumes "capacity_m (data_m v) < n" "RawMemory_ctor E n m = Ret nd m1"
    and "(if moves_elements E
          then uninitialized_move_n E (GetAddress (data_m v)) (size_m v) (GetAddress nd) m1
          else uninitialized_copy_n E (GetAddress (data_m v)) (size_m v) (GetAddress nd) m1)
         = Thrown e m2"
    and "RawMemory_dtor nd m2 = Ret () m3"
  shows "Reserve E n (v, m) = Thrown e (v, m3)"
  using assms
  by (auto simp: Reserve_def RawMemory_Capacity_def on_unwind_def rethrow_after_def)

lemma Reserve_Ret:
  assumes "capacity_m (data_m v) < n" "RawMemory_ctor E n m = Ret nd m1"
    and "(if moves_elements E
          then uninitialized_move_n E (GetAddress (data_m v)) (size_m v) (GetAddress nd) m1
          else uninitialized_copy_n E (GetAddress (data_m v)) (size_m v) (GetAddress nd) m1)
         = Ret r m2"
    and "destroy_n (GetAddress (data_m v)) (size_m v) m2 = Ret () m3"
    and "RawMemory_dtor (data_m v) m3 = Ret () m4"
  shows "Reserve E n (v, m) = Ret () (v\<lparr>data_m := nd\<rparr>, m4)"
  using assms
  by (cases nd; cases "data_m v")
     (auto simp: Reserve_def RawMemory_Capacity_def on_unwind_def rethrow_after_def
        RawMemory_Swap_def)


lemma heap_shape_length:
  "shape m' = shape m \<Longrightarrow> map_option length (heap m' a) = map_option length (heap m a)"
  by (auto simp: shape_def fun_eq_iff dest!: spec[of _ a])

lemma release_old_buffer:
  assumes "snd (buffer_m d) = 0"
    and "\<forall>b. fst (buffer_m d) = Some b \<longrightarrow> heap m b \<noteq> None"
    and "heap_ok m"
  shows "\<exists>m'. RawMemory_dtor d m = Ret () m' \<and> trace m' = trace m \<and> heap_ok m' \<and>
           next_addr m' = next_addr m \<and>
           (\<forall>q. cell_at m' q = (if fst q = fst (buffer_m d) then None else cell_at m q)) \<and>
           (\<forall>a. Some a \<noteq> fst (buffer_m d) \<longrightarrow> heap m' a = heap m a) \<and>
           (\<forall>a. Some a = fst (buffer_m d) \<longrightarrow> heap m' a = None)"
proof (cases "fst (buffer_m d)")
  case None
  then have "RawMemory_dtor d m = Ret () m"
    by (simp add: RawMemory_dtor_def Deallocate_def operator_delete_def)
  moreover have "\<forall>q. cell_at m q = (if fst q = fst (buffer_m d) then None else cell_at m q)"
    using None by (auto simp: cell_at_def)
  ultimately show ?thesis using assms(3) None by auto
next
  case (Some b)
  then have "RawMemory_dtor d m = Ret () (m\<lparr>heap := (heap m)(b := None)\<rparr>)"
    using assms(1,2) by (simp add: RawMemory_dtor_def Deallocate_def operator_delete_def)
  then show ?thesis using Some assms(3) by (auto simp: cell_at_freed heap_ok_freed)
qed

lemma Reserve_spec:
  assumes inv: "invariant_L v m" and hok: "heap_ok m" and gt: "capacity_m (data_m v) < n"
    and sz: "0 < sizeof_T E" and fit: "n * sizeof_T E < 2 ^ 64"
    and K: "K = (if moves_elements E then {Move_ctor, Dtor} else {Copy_ctor, Dtor})"
    and v': "v' = v\<lparr>data_m := \<lparr>buffer_m = (Some (next_addr m), 0), capacity_m = n\<rparr>\<rparr>"
  shows "(\<exists>m' ys. Reserve E n (v, m) = Ret () (v', m') \<and> invariant_L v' m' \<and> heap_ok m' \<and>
            elements v' m' = ys \<and> (faithful E \<longrightarrow> ys = elements v m) \<and>
            performed K (size_m v) (size_m v) m m') \<or>
         (\<exists>e m' c. Reserve E n (v, m) = Thrown e (v, m') \<and> heap m' = heap m \<and> heap_ok m' \<and>
            performed K c c m m') \<or>
         (\<exists>m' c. Reserve E n (v, m) = Thrown elem_exn (v, m') \<and> moves_elements E \<and>
            (\<exists>h x. fst (move_ctor E h x) = None) \<and> performed K c c m m')"
proof -
  let ?buf = "buffer_m (data_m v)"
  let ?a = "next_addr m"
  let ?nd = "\<lparr>buffer_m = (Some ?a, 0), capacity_m = n\<rparr>"
  from invariant_L_cells[OF inv] obtain xs where xs:
    "length xs = size_m v" "elements v m = xs" "snd ?buf = 0"
    "size_m v \<le> capacity_m (data_m v)" "capacity_m (data_m v) < 2 ^ 64"
    "fst ?buf = None \<longleftrightarrow> capacity_m (data_m v) = 0"
    "\<forall>b. fst ?buf = Some b \<longrightarrow> map_option length (heap m b) = Some (capacity_m (data_m v))"
    "\<forall>i<size_m v. cell_at m (ptr_add ?buf i) = Some (Live (xs ! i))"
    "\<forall>i. size_m v \<le> i \<and> i < capacity_m (data_m v) \<longrightarrow> cell_at m (ptr_add ?buf i) = Some Raw"
    by (elim exE conjE) (rule that, assumption+)
  have n0: "0 < n" using gt by simp
  show ?thesis
  proof (cases "new_ok E ?a (size_t_mod (n * sizeof_T E))")
    case False
    have "Reserve E n (v, m) = Thrown bad_alloc (v, m)"
      by (rule Reserve_alloc_fail[OF gt RawMemory_ctor_fail[OF n0 False]])
    then have "\<exists>e m' c. Reserve E n (v, m) = Thrown e (v, m') \<and> heap m' = heap m \<and>
            heap_ok m' \<and> performed K c c m m'"
      using hok by (intro exI[of _ bad_alloc] exI[of _ m] exI[of _ 0]) simp
    then show ?thesis by (intro disjI2 disjI1)
  next
    case True
    from RawMemory_ctor_ok[OF n0 True sz fit hok] obtain m1 where m1:
      "RawMemory_ctor E n m = Ret ?nd m1"
      "heap m1 = (heap m)(?a \<mapsto> replicate n Raw)" "next_addr m1 = Suc ?a"
      "trace m1 = trace m" "heap_ok m1" "heap m ?a = None"
      "\<forall>q. cell_at m1 q =
          (if fst q = Some ?a then (if snd q < n then Some Raw else None) else cell_at m q)"
      by blast
    have ne: "fst ?buf \<noteq> Some ?a" using xs(7) m1(6) by auto
    have s1: "\<forall>i<length xs. cell_at m1 (ptr_add ?buf i) = Some (Live (xs ! i))"
      using xs(1,8) ne m1(7) by (simp add: ptr_add_def)
    have d1: "\<forall>i<length xs. cell_at m1 (ptr_add (Some ?a, 0) i) = Some Raw"
      using xs(1,4) gt m1(7) by (simp add: ptr_add_def)
    define out where "out =
       (if moves_elements E
        then uninitialized_move_n E (GetAddress (data_m v)) (size_m v) (GetAddress ?nd) m1
        else uninitialized_copy_n E (GetAddress (data_m v)) (size_m v) (GetAddress ?nd) m1)"
    have out: "out = (if moves_elements E then uninitialized_move_n E ?buf (length xs) (Some ?a, 0) m1
                else uninitialized_copy_n E ?buf (length xs) (Some ?a, 0) m1)"
      by (simp add: out_def GetAddress_def xs(1))
    have ne': "fst ?buf \<noteq> fst (Some ?a, 0::nat)" using ne by simp
    from relocate_spec[OF ne' s1 d1 out K]
    show ?thesis
    proof (elim disjE exE conjE)
      fix m2 ys zs
      assume a: "out = Ret (ptr_add (Some ?a, 0) (length xs)) m2"
        "length ys = length xs" "length zs = length xs" "faithful E \<longrightarrow> ys = xs"
        "shape m2 = shape m1" "performed K (length xs) 0 m1 m2"
        "\<forall>q. cell_at m2 q =
           (if fst q = fst (Some ?a, 0::nat) \<and> snd (Some ?a, 0::nat) \<le> snd q \<and>
               snd q < snd (Some ?a, 0::nat) + length xs
            then Some (Live (ys ! (snd q - snd (Some ?a, 0::nat))))
            else if fst q = fst ?buf \<and> snd ?buf \<le> snd q \<and> snd q < snd ?buf + length xs
            then Some (Live (zs ! (snd q - snd ?buf)))
            else cell_at m1 q)"
      have c2a: "cell_at m2 (Some ?a, i) =
                   (if i < size_m v then Some (Live (ys ! i)) else if i < n then Some Raw else None)" for i
        using a(7)[rule_format, of "(Some ?a, i)"] ne m1(7)[rule_format, of "(Some ?a, i)"] xs(1)
        by simp
      have pre: "\<forall>i<size_m v. \<exists>x. cell_at m2 (ptr_add (GetAddress (data_m v)) i) = Some (Live x)"
      proof (intro allI impI)
        fix i assume "i < size_m v"
        then show "\<exists>x. cell_at m2 (ptr_add (GetAddress (data_m v)) i) = Some (Live x)"
          using a(7)[rule_format, of "ptr_add ?buf i"] ne xs(1,3) by (simp add: GetAddress_def)
      qed
      from destroy_n_spec[OF pre] obtain m3 where m3:
        "destroy_n (GetAddress (data_m v)) (size_m v) m2 = Ret () m3" "shape m3 = shape m2"
        "performed {Dtor} 0 (size_m v) m2 m3"
        "\<forall>q. cell_at m3 q =
           (if fst q = fst (GetAddress (data_m v)) \<and> snd (GetAddress (data_m v)) \<le> snd q \<and>
               snd q < snd (GetAddress (data_m v)) + size_m v
            then Some Raw else cell_at m2 q)"
        by blast
      have c3a: "cell_at m3 (Some ?a, i) = cell_at m2 (Some ?a, i)" for i
        using m3(4)[rule_format, of "(Some ?a, i)"] ne by (simp add: GetAddress_def)
      have sh3: "shape m3 = shape m1" using m3(2) a(5) by simp
      have hok3: "heap_ok m3" using shape_heap_ok[OF sh3[symmetric] m1(5)] .
      have old: "\<forall>b. fst (buffer_m (data_m v)) = Some b \<longrightarrow> heap m3 b \<noteq> None"
      proof (intro allI impI)
        fix b assume b: "fst ?buf = Some b"
        then have "heap m b \<noteq> None" using xs(7) by auto
        moreover have "b \<noteq> ?a" using b ne by auto
        ultimately have "heap m1 b \<noteq> None" using m1(2) by simp
        then show "heap m3 b \<noteq> None" using shape_heap_None[OF sh3, of b] by simp
      qed
      from release_old_buffer[OF xs(3) old hok3] obtain m4 where m4:
        "RawMemory_dtor (data_m v) m3 = Ret () m4" "trace m4 = trace m3" "heap_ok m4"
        "\<forall>q. cell_at m4 q = (if fst q = fst ?buf then None else cell_at m3 q)"
        "\<forall>a. Some a \<noteq> fst ?buf \<longrightarrow> heap m4 a = heap m3 a"
        by blast
      have res: "Reserve E n (v, m) = Ret () (v', m4)"
        unfolding v' by (rule Reserve_Ret[OF gt m1(1) a(1)[unfolded out_def] m3(1) m4(1)])
      have len: "map_option length (heap m4 ?a) = Some (capacity_m (data_m v'))"
      proof -
        have "heap m4 ?a = heap m3 ?a" using m4(5) ne by auto
        moreover have "map_option length (heap m3 ?a) = map_option length (heap m1 ?a)"
          by (rule heap_shape_length[OF sh3])
        ultimately show ?thesis using m1(2) by (simp add: v')
      qed
      have c4a: "cell_at m4 (Some ?a, i) =
                   (if i < size_m v then Some (Live (ys ! i)) else if i < n then Some Raw else None)" for i
        using m4(4)[rule_format, of "(Some ?a, i)"] ne c3a[of i] c2a[of i] by simp
      have inv4: "invariant_L v' m4 \<and> elements v' m4 = ys"
      proof (rule invariant_L_intro[where a = ?a])
        show "buffer_m (data_m v') = (Some ?a, 0)" by (simp add: v')
        show "map_option length (heap m4 ?a) = Some (capacity_m (data_m v'))" by (rule len)
        show "0 < capacity_m (data_m v')" using n0 by (simp add: v')
        show "capacity_m (data_m v') < 2 ^ 64"
        proof -
          have "n \<le> n * sizeof_T E" using sz by simp
          then have "n < 2 ^ 64" using fit by (rule le_less_trans)
          then show ?thesis by (simp add: v')
        qed
        show "length ys = size_m v'" using a(2) xs(1) by (simp add: v')
        show "size_m v' \<le> capacity_m (data_m v')" using xs(4) gt by (simp add: v')
        show "\<forall>i<size_m v'. cell_at m4 (Some ?a, i) = Some (Live (ys ! i))"
          using c4a by (simp add: v')
        show "\<forall>i. size_m v' \<le> i \<and> i < capacity_m (data_m v') \<longrightarrow> cell_at m4 (Some ?a, i) = Some Raw"
          using c4a by (simp add: v')
      qed
      have perf4: "performed K (size_m v) (size_m v) m m4"
      proof -
        have "performed (K \<union> {Dtor}) (length xs + 0) (0 + size_m v) m1 m3"
          by (rule performed_trans[OF a(6) m3(3)])
        then have "performed K (size_m v) (size_m v) m1 m3"
          using K xs(1) by (auto elim: performed_mono split: if_splits)
        then show ?thesis using performed_cong[OF m1(4)[symmetric] m4(2), of K "size_m v" "size_m v"] by simp
      qed
      have "\<exists>m' ys. Reserve E n (v, m) = Ret () (v', m') \<and> invariant_L v' m' \<and> heap_ok m' \<and>
            elements v' m' = ys \<and> (faithful E \<longrightarrow> ys = elements v m) \<and>
            performed K (size_m v) (size_m v) m m'"
        using res inv4 perf4 m4(3) a(4) xs(2) by (intro exI[of _ m4] exI[of _ ys]) simp
      then show ?thesis by (rule disjI1)
    next
      fix m2 c zs
      assume a: "out = Thrown elem_exn m2" "length zs = length xs" "shape m2 = shape m1"
        "performed K c c m1 m2"
        "moves_elements E \<longrightarrow> (\<exists>h x. fst (move_ctor E h x) = None)"
        "\<not> moves_elements E \<longrightarrow> zs = xs"
        "\<forall>q. cell_at m2 q =
           (if fst q = fst ?buf \<and> snd ?buf \<le> snd q \<and> snd q < snd ?buf + length xs
            then Some (Live (zs ! (snd q - snd ?buf)))
            else cell_at m1 q)"
      have hok2: "heap_ok m2" using shape_heap_ok[OF a(3)[symmetric] m1(5)] .
      have new: "\<forall>b. fst (buffer_m ?nd) = Some b \<longrightarrow> heap m2 b \<noteq> None"
        using shape_heap_None[OF a(3), of ?a] m1(2) by simp
      have "snd (buffer_m ?nd) = 0" by simp
      from release_old_buffer[OF this new hok2] obtain m3 where m3:
        "RawMemory_dtor ?nd m2 = Ret () m3" "trace m3 = trace m2" "heap_ok m3"
        "\<forall>a. Some a \<noteq> fst (buffer_m ?nd) \<longrightarrow> heap m3 a = heap m2 a"
        "\<forall>a. Some a = fst (buffer_m ?nd) \<longrightarrow> heap m3 a = None"
        by blast
      have res: "Reserve E n (v, m) = Thrown elem_exn (v, m3)"
        by (rule Reserve_Thrown[OF gt m1(1) a(1)[unfolded out_def] m3(1)])
      have perf: "performed K c c m m3"
        using a(4) performed_cong[OF m1(4)[symmetric] m3(2), of K c c] by simp
      show ?thesis
      proof (cases "moves_elements E")
        case True
        then have "\<exists>m' c. Reserve E n (v, m) = Thrown elem_exn (v, m') \<and> moves_elements E \<and>
            (\<exists>h x. fst (move_ctor E h x) = None) \<and> performed K c c m m'"
          using res perf a(5) by (intro exI[of _ m3] exI[of _ c]) simp
        then show ?thesis by (intro disjI2)
      next
        case False
        then have zs: "zs = xs" using a(6) by simp
        have "\<And>q. cell_at m2 q = cell_at m1 q"
        proof -
          fix q
          show "cell_at m2 q = cell_at m1 q"
          proof (cases "fst q = fst ?buf \<and> snd ?buf \<le> snd q \<and> snd q < snd ?buf + length xs")
            case True
            then have "q = ptr_add ?buf (snd q - snd ?buf)" by (simp add: ptr_add_def prod_eq_iff)
            moreover have "snd q - snd ?buf < length xs" using True by auto
            ultimately have "cell_at m1 q = Some (Live (xs ! (snd q - snd ?buf)))"
              using s1 by metis
            then show ?thesis using a(7)[rule_format, of q] True zs by simp
          next
            case False
            then show ?thesis using a(7)[rule_format, of q] by auto
          qed
        qed
        then have h21: "heap m2 = heap m1" using heap_eqI[OF a(3)] by blast
        have "heap m3 = heap m"
        proof
          fix b show "heap m3 b = heap m b"
            using m3(4,5) h21 m1(2,6) by (cases "b = ?a") auto
        qed
        then have "\<exists>e m' c. Reserve E n (v, m) = Thrown e (v, m') \<and> heap m' = heap m \<and>
            heap_ok m' \<and> performed K c c m m'"
          using res perf m3(3) by (intro exI[of _ elem_exn] exI[of _ m3] exI[of _ c]) simp
        then show ?thesis by (intro disjI2 disjI1)
      qed
    qed
  qed
qed

subsection \<open>C6: \<open>Reserve\<close>\<close>

text \<open>
  C6 as stated holds for every \<open>n\<close>. \<open>Allocate\<close> computes the byte count
  \<^verbatim>\<open>n * sizeof(T)\<close> in \<^verbatim>\<open>size_t\<close> without a check. On \<^verbatim>\<open>v = [1, 2]\<close> with a two-byte
  element type, \<^verbatim>\<open>v.Reserve(0x8000000000000001)\<close> asks \<^verbatim>\<open>operator new\<close> for 2 bytes, a block
  of one slot, and relocates two elements into it: the second is written outside the
  block. The capacity is not set to \<open>n\<close> with the elements preserved.
\<close>

theorem Reserve_overflow_undefined:
  "invariant_L (fst (two_of_two (1::int) 2)) (snd (two_of_two (1::int) 2)) \<and>
   Capacity (fst (two_of_two (1::int) 2)) < 2 ^ 63 + 1 \<and>
   (2 ^ 63 + 1 :: nat) < 2 ^ 64 \<and>
   Reserve T_short (2 ^ 63 + 1) (two_of_two 1 2) = Undefined"
  by (simp add: run_defs loops_numeral T_short_def two_of_two_def invariant_L_def cells_of_def)

lemma Reserve_no_effect:
  "n \<le> Capacity v \<Longrightarrow> Reserve E n (v, m) = Ret () (v, m)"
  by (simp add: Reserve_def Capacity_def)

text \<open>
  C6 as amended. \<open>Reserve n\<close> with \<open>n \<le> capacity\<close> returns without any effect. With
  \<open>n > capacity\<close> and a byte count \<open>n * sizeof(T)\<close> that fits \<^verbatim>\<open>size_t\<close>, on a
  sequence that satisfies invariant L, it either leaves by an exception with the members of
  the \<open>Vector\<close> unchanged, or it returns with capacity exactly \<open>n\<close>, the size
  unchanged, invariant L, and (for an element type whose copies and moves carry the value
  over) the same element values in the same order; after that \<open>Reserve k\<close> with
  \<open>k \<le> n\<close> has no effect, so the capacity stays at \<open>n\<close>.
\<close>

theorem Reserve_sets_capacity:
  "(n \<le> Capacity v \<longrightarrow> Reserve E n (v, m) = Ret () (v, m)) \<and>
   (invariant_L v m \<and> heap_ok m \<and> Capacity v < n \<and> 0 < sizeof_T E \<and> n * sizeof_T E < 2 ^ 64 \<longrightarrow>
      (\<exists>v' m'. Reserve E n (v, m) = Ret () (v', m') \<and> Capacity v' = n \<and> Size v' = Size v \<and>
          (faithful E \<longrightarrow> elements v' m' = elements v m) \<and> invariant_L v' m' \<and>
          (\<forall>k\<le>n. Reserve E k (v', m') = Ret () (v', m'))) \<or>
      (\<exists>e m'. Reserve E n (v, m) = Thrown e (v, m')))"
proof (intro conjI impI)
  assume "n \<le> Capacity v"
  then show "Reserve E n (v, m) = Ret () (v, m)" by (rule Reserve_no_effect)
next
  assume h: "invariant_L v m \<and> heap_ok m \<and> Capacity v < n \<and> 0 < sizeof_T E \<and> n * sizeof_T E < 2 ^ 64"
  define v' where "v' = v\<lparr>data_m := \<lparr>buffer_m = (Some (next_addr m), 0), capacity_m = n\<rparr>\<rparr>"
  have gt: "capacity_m (data_m v) < n" using h by (simp add: Capacity_def RawMemory_Capacity_def)
  have cap: "Capacity v' = n" "Size v' = Size v"
    by (simp_all add: v'_def Capacity_def RawMemory_Capacity_def Size_def)
  have idem: "\<forall>k\<le>n. Reserve E k (v', m') = Ret () (v', m')" for m'
    using cap(1) by (simp add: Reserve_no_effect)
  from h have inv: "invariant_L v m" and hok: "heap_ok m" and sz: "0 < sizeof_T E"
    and fit: "n * sizeof_T E < 2 ^ 64" by simp_all
  from Reserve_spec[OF inv hok gt sz fit refl v'_def]
  show "(\<exists>v' m'. Reserve E n (v, m) = Ret () (v', m') \<and> Capacity v' = n \<and> Size v' = Size v \<and>
          (faithful E \<longrightarrow> elements v' m' = elements v m) \<and> invariant_L v' m' \<and>
          (\<forall>k\<le>n. Reserve E k (v', m') = Ret () (v', m'))) \<or>
      (\<exists>e m'. Reserve E n (v, m) = Thrown e (v, m'))"
  proof (elim disjE exE conjE)
    fix m' ys
    assume a: "Reserve E n (v, m) = Ret () (v', m')" "invariant_L v' m'"
      "elements v' m' = ys" "faithful E \<longrightarrow> ys = elements v m"
    have "\<exists>w m'. Reserve E n (v, m) = Ret () (w, m') \<and> Capacity w = n \<and> Size w = Size v \<and>
          (faithful E \<longrightarrow> elements w m' = elements v m) \<and> invariant_L w m' \<and>
          (\<forall>k\<le>n. Reserve E k (w, m') = Ret () (w, m'))"
      using a cap idem by (intro exI[of _ v'] exI[of _ m']) simp
    then show ?thesis by (rule disjI1)
  next
    fix e m' c
    assume "Reserve E n (v, m) = Thrown e (v, m')"
    then show ?thesis by blast
  next
    fix m' c
    assume "Reserve E n (v, m) = Thrown elem_exn (v, m')"
    then show ?thesis by blast
  qed
qed

theorem Reserve_sets_capacity_witness:
  "Capacity (fst (one_of_two (7::int))) < 5 \<and>
   invariant_L (fst (one_of_two (7::int))) (snd (one_of_two (7::int))) \<and> heap_ok (snd (one_of_two (7::int))) \<and>
   0 < sizeof_T T_int \<and> 5 * sizeof_T T_int < 2 ^ 64 \<and>
   (\<exists>v' m'. Reserve T_int 5 (one_of_two 7) = Ret () (v', m') \<and> Capacity v' = 5 \<and>
       elements v' m' = [7] \<and> Reserve T_int 3 (v', m') = Ret () (v', m')) \<and>
   Reserve T_int 2 (one_of_two 7) = Ret () (one_of_two 7)"
proof -
  have h: "invariant_L (fst (one_of_two (7::int))) (snd (one_of_two (7::int))) \<and> heap_ok (snd (one_of_two (7::int))) \<and>
     Capacity (fst (one_of_two (7::int))) < 5 \<and> 0 < sizeof_T T_int \<and> 5 * sizeof_T T_int < 2 ^ 64"
    by (simp add: invariant_L_one_of_two heap_ok_one_of_two)
       (simp add: one_of_two_def Capacity_def RawMemory_Capacity_def T_int_def)
  have el: "elements (fst (one_of_two (7::int))) (snd (one_of_two 7)) = [7]"
    by (simp add: elements_def cells_of_def one_of_two_def List.map_filter_def)
  have nt: "Reserve T_int 5 (one_of_two 7) \<noteq> Thrown e s" for e s
    by (simp add: run_defs T_int_def one_of_two_def)
  have le: "2 \<le> Capacity (fst (one_of_two (7::int)))"
    by (simp add: one_of_two_def Capacity_def RawMemory_Capacity_def)
  from Reserve_sets_capacity[of 5 "fst (one_of_two (7::int))" T_int "snd (one_of_two 7)"]
       Reserve_sets_capacity[of 2 "fst (one_of_two (7::int))" T_int "snd (one_of_two 7)"]
  show ?thesis using h el nt le faithful_T_int by (auto simp: one_of_two_def)
qed

subsection \<open>C10: \<open>PopBack\<close> and \<open>Erase\<close> keep the buffer\<close>

lemma live_map_Some_True: "live_map m q = Some True \<longleftrightarrow> (\<exists>x. cell_at m q = Some (Live x))"
  by (cases "cell_at m q"; simp add: live_map_def) (metis is_Live.elims(2) is_Live.simps(1))

lemma live_map_Some_False: "live_map m q = Some False \<longleftrightarrow> cell_at m q = Some Raw"
  by (cases "cell_at m q"; simp add: live_map_def) (metis is_Live.elims(3) is_Live.simps(2))

lemma invariant_L_iff:
  "invariant_L v m \<longleftrightarrow>
     snd (buffer_m (data_m v)) = 0 \<and> size_m v \<le> capacity_m (data_m v) \<and>
     capacity_m (data_m v) < 2 ^ 64 \<and>
     (fst (buffer_m (data_m v)) = None \<longleftrightarrow> capacity_m (data_m v) = 0) \<and>
     (\<forall>b. fst (buffer_m (data_m v)) = Some b \<longrightarrow>
          snd (shape m) b = Some (capacity_m (data_m v))) \<and>
     (\<forall>i<size_m v. live_map m (ptr_add (buffer_m (data_m v)) i) = Some True) \<and>
     (\<forall>i. size_m v \<le> i \<and> i < capacity_m (data_m v) \<longrightarrow>
          live_map m (ptr_add (buffer_m (data_m v)) i) = Some False)"
  (is "?L \<longleftrightarrow> ?R")
proof
  assume ?L
  from invariant_L_cells[OF this] show ?R
    by (elim exE conjE) (simp add: live_map_Some_True live_map_Some_False shape_def)
next
  assume r: ?R
  obtain b i where buf: "buffer_m (data_m v) = (b, i)" by (cases "buffer_m (data_m v)")
  from r buf have i0: "i = 0" by simp
  show ?L
  proof (cases b)
    case None
    then have "capacity_m (data_m v) = 0" using r buf by simp
    then show ?thesis using r buf None i0 by (simp add: invariant_L_def cells_of_def)
  next
    case (Some a)
    from r buf Some obtain cs where cs: "heap m a = Some cs" "length cs = capacity_m (data_m v)"
      by (auto simp: shape_def)
    have c: "cells_of v m = Some cs" using buf Some i0 cs(1) by (simp add: cells_of_def)
    have live: "\<forall>j<size_m v. is_Live (cs ! j)"
    proof (intro allI impI)
      fix j assume j: "j < size_m v"
      then have "live_map m (Some a, j) = Some True" using r buf Some i0 by (simp add: ptr_add_def)
      then show "is_Live (cs ! j)"
        using cs j r by (auto simp: live_map_def cell_at_heap split: if_splits)
    qed
    have raw: "\<forall>j. size_m v \<le> j \<and> j < capacity_m (data_m v) \<longrightarrow> is_Raw (cs ! j)"
    proof (intro allI impI)
      fix j assume j: "size_m v \<le> j \<and> j < capacity_m (data_m v)"
      then have "live_map m (Some a, j) = Some False" using r buf Some i0 by (simp add: ptr_add_def)
      then have "cs ! j = Raw" using cs j by (simp add: live_map_Some_False cell_at_heap)
      then show "is_Raw (cs ! j)" by simp
    qed
    have "list_all is_Live (take (size_m v) cs)"
      using live cs(2) r by (simp add: list_all_length)
    moreover have "list_all is_Raw (drop (size_m v) cs)"
      using raw cs(2) by (simp add: list_all_length)
    ultimately show ?thesis using c cs(2) r buf Some by (simp add: invariant_L_def)
  qed
qed

lemma invariant_L_live:
  "live_map m' = live_map m \<Longrightarrow> shape m' = shape m \<Longrightarrow> invariant_L v m' = invariant_L v m"
  by (simp add: invariant_L_iff)

lemma move_assign_cell_live:
  assumes "live_map m src = Some True" "live_map m dst = Some True"
  shows "\<exists>m'. (move_assign_cell E dst src m = Ret () m' \<or>
               move_assign_cell E dst src m = Thrown elem_exn m') \<and>
              live_map m' = live_map m \<and> shape m' = shape m"
proof -
  from assms obtain x d where x: "cell_at m src = Some (Live x)" and d: "cell_at m dst = Some (Live d)"
    by (auto simp: live_map_Some_True)
  obtain ok d' x' where r: "move_assign E (trace m) d x = (ok, d', x')"
    by (cases "move_assign E (trace m) d x")
  let ?m0 = "put_cell dst (Live d') (put_cell src (Live x') m)"
  have lm: "live_map ?m0 = live_map m"
  proof
    fix q show "live_map ?m0 q = live_map m q"
      using x d by (auto simp: live_map_def cell_at_put_cell)
  qed
  have "live_map (record_event ev ?m0) = live_map m" for ev
    using lm by (simp add: live_map_def fun_eq_iff)
  moreover have "shape (record_event ev ?m0) = shape m" for ev by simp
  moreover have "move_assign_cell E dst src m = Ret () (record_event (Done Move_assign d') ?m0) \<or>
        move_assign_cell E dst src m = Thrown elem_exn (record_event (Failed Move_assign) ?m0)"
    using x d r by (cases ok) (simp_all add: move_assign_cell_def)
  ultimately show ?thesis by metis
qed

lemma move_loop_live:
  assumes "\<forall>j<n. live_map m (ptr_add first j) = Some True \<and> live_map m (ptr_add d_first j) = Some True"
  shows "\<exists>m'. (move_loop E first d_first n m = Ret (ptr_add d_first n) m' \<or>
               move_loop E first d_first n m = Thrown elem_exn m') \<and>
              live_map m' = live_map m \<and> shape m' = shape m"
  using assms
proof (induction n arbitrary: first d_first m)
  case 0
  then show ?case by simp
next
  case (Suc n)
  have "live_map m first = Some True" "live_map m d_first = Some True"
    using Suc.prems by (metis ptr_add_0 zero_less_Suc)+
  from move_assign_cell_live[OF this, of E] obtain m1 where m1:
    "move_assign_cell E d_first first m = Ret () m1 \<or>
     move_assign_cell E d_first first m = Thrown elem_exn m1"
    "live_map m1 = live_map m" "shape m1 = shape m"
    by blast
  from m1(1) show ?case
  proof
    assume t: "move_assign_cell E d_first first m = Thrown elem_exn m1"
    then have "move_loop E first d_first (Suc n) m = Thrown elem_exn m1" by simp
    then show ?thesis using m1(2,3) by blast
  next
    assume s: "move_assign_cell E d_first first m = Ret () m1"
    have "\<forall>j<n. live_map m1 (ptr_add (ptr_add first 1) j) = Some True \<and>
                live_map m1 (ptr_add (ptr_add d_first 1) j) = Some True"
      using Suc.prems m1(2) by simp
    from Suc.IH[OF this] obtain m' where m':
      "move_loop E (ptr_add first 1) (ptr_add d_first 1) n m1 = Ret (ptr_add (ptr_add d_first 1) n) m' \<or>
       move_loop E (ptr_add first 1) (ptr_add d_first 1) n m1 = Thrown elem_exn m'"
      "live_map m' = live_map m1" "shape m' = shape m1"
      by blast
    have "move_loop E first d_first (Suc n) m = Ret (ptr_add d_first (Suc n)) m' \<or>
          move_loop E first d_first (Suc n) m = Thrown elem_exn m'"
      using s m'(1) by auto
    then show ?thesis using m'(2,3) m1(2,3) by auto
  qed
qed

lemma PopBack_spec:
  assumes inv: "invariant_L v m" and ne: "0 < size_m v"
  shows "\<exists>m'. PopBack (v, m) = Ret () (v\<lparr>size_m := size_m v - 1\<rparr>, m') \<and> shape m' = shape m \<and>
              invariant_L (v\<lparr>size_m := size_m v - 1\<rparr>) m'"
proof -
  define k where "k = size_m v - 1"
  have k: "size_m v = Suc k" using ne by (simp add: k_def)
  define p where "p = ptr_add (buffer_m (data_m v)) k"
  from inv have "live_map m p = Some True" by (simp add: invariant_L_iff p_def k)
  then obtain x where x: "cell_at m p = Some (Live x)" by (auto simp: live_map_Some_True)
  define m' where "m' = record_event (Done Dtor x) (put_cell p Raw m)"
  have pe: "(fst (GetAddress (data_m v)), snd (GetAddress (data_m v)) + size_m v - 1) = p"
    by (simp add: ptr_add_def GetAddress_def p_def k)
  have d: "destroy_at (fst (GetAddress (data_m v)), snd (GetAddress (data_m v)) + size_m v - 1) m
             = Ret () m'"
    unfolding pe m'_def by (rule destroy_at_Live[OF x])
  have "PopBack (v, m) = Ret () (v\<lparr>size_m := size_m v - 1\<rparr>, m')"
    using ne by (simp add: PopBack_def d del: One_nat_def)
  moreover have "shape m' = shape m" by (simp add: m'_def)
  moreover have "invariant_L (v\<lparr>size_m := size_m v - 1\<rparr>) m'"
  proof -
    have lm: "live_map m' q = (if q = p then Some False else live_map m q)" for q
      using x by (simp add: live_map_def cell_at_put_cell m'_def)
    have inj: "ptr_add (buffer_m (data_m v)) i = p \<longleftrightarrow> i = k" for i
      by (auto simp: ptr_add_def p_def)
    have sh: "shape m' = shape m" by (simp add: m'_def)
    show ?thesis
      using inv unfolding invariant_L_iff
      by (auto simp: lm inj sh k less_Suc_eq_le)
  qed
  ultimately show ?thesis by blast
qed

lemma Erase_spec:
  assumes inv: "invariant_L v m" and lt: "shift < size_m v"
  shows "\<exists>v' m'. (Erase E (ptr_add (Vector_begin v) shift) (v, m)
                     = Ret (ptr_add (Vector_begin v) shift) (v', m') \<and> size_m v' = size_m v - 1 \<or>
                  Erase E (ptr_add (Vector_begin v) shift) (v, m) = Thrown elem_exn (v', m') \<and>
                    size_m v' = size_m v) \<and>
                 data_m v' = data_m v \<and> shape m' = shape m \<and> invariant_L v' m'"
proof -
  define n where "n = size_m v - shift - 1"
  define f where "f = ptr_add (Vector_begin v) (Suc shift)"
  define d where "d = ptr_add (Vector_begin v) shift"
  have pd: "ptr_diff d (Vector_begin v) = Some shift"
    by (simp add: ptr_diff_def ptr_add_def Vector_begin_def d_def)
  have rl: "range_length f (Vector_end v) = Some n"
    using lt by (simp add: range_length_def ptr_add_def Vector_begin_def Vector_end_def n_def f_def)
  have live: "\<forall>j<n. live_map m (ptr_add f j) = Some True \<and> live_map m (ptr_add d j) = Some True"
    using inv lt by (auto simp: invariant_L_iff Vector_begin_def GetAddress_def n_def f_def d_def)
  from move_loop_live[OF live, of E] obtain m1 where m1:
    "move_loop E f d n m = Ret (ptr_add d n) m1 \<or> move_loop E f d n m = Thrown elem_exn m1"
    "live_map m1 = live_map m" "shape m1 = shape m"
    by blast
  have inv1: "invariant_L v m1" using invariant_L_live[OF m1(2,3)] inv by simp
  have unf: "Erase E d (v, m) =
               and_then (within v (move_loop E f d n m))
                 (\<lambda>_ s1. and_then (PopBack s1) (\<lambda>_ s2. Ret (ptr_add (Vector_begin (fst s2)) shift) s2))"
    using rl by (simp add: Erase_def pd std_move_def f_def[symmetric] d_def[symmetric]
        del: ptr_add_add) (simp add: f_def d_def)
  from m1(1) show ?thesis
  proof
    assume "move_loop E f d n m = Thrown elem_exn m1"
    then have "Erase E d (v, m) = Thrown elem_exn (v, m1)"
      by (simp add: unf)
    then show ?thesis using inv1 m1(3) unfolding d_def by blast
  next
    assume r: "move_loop E f d n m = Ret (ptr_add d n) m1"
    have ne: "0 < size_m v" using lt by simp
    from PopBack_spec[OF inv1 ne] obtain m2 where m2:
      "PopBack (v, m1) = Ret () (v\<lparr>size_m := size_m v - 1\<rparr>, m2)" "shape m2 = shape m1"
      "invariant_L (v\<lparr>size_m := size_m v - 1\<rparr>) m2"
      by blast
    have vb: "Vector_begin (v\<lparr>size_m := k\<rparr>) = Vector_begin v" for k
      by (simp add: Vector_begin_def)
    have "Erase E d (v, m) = Ret d (v\<lparr>size_m := size_m v - 1\<rparr>, m2)"
      unfolding unf using r m2(1) by (simp add: vb d_def del: One_nat_def)
    then show ?thesis using m2(2,3) m1(3) unfolding d_def
      by (intro exI[of _ "v\<lparr>size_m := size_m v - 1\<rparr>"] exI[of _ m2]) simp
  qed
qed

text \<open>
  C10: on a non-empty sequence \<open>PopBack\<close> returns with the buffer pointer and the capacity
  unchanged; \<open>Erase\<close> at a position in \<open>[begin(), end())\<close> returns, or leaves by the
  exception of a move assignment, with the buffer pointer and the capacity unchanged. In
  both no block is allocated, freed or resized, and invariant L is kept: only the element
  count and the element values change.
\<close>

theorem PopBack_Erase_keep_buffer:
  "(invariant_L v m \<and> 0 < size_m v \<longrightarrow>
      (\<exists>v' m'. PopBack (v, m) = Ret () (v', m') \<and> size_m v' = size_m v - 1 \<and>
          data_m v' = data_m v \<and> shape m' = shape m \<and> invariant_L v' m')) \<and>
   (invariant_L v m \<and> shift < size_m v \<longrightarrow>
      (\<exists>v' m'. (Erase E (ptr_add (Vector_begin v) shift) (v, m)
                     = Ret (ptr_add (Vector_begin v) shift) (v', m') \<and> size_m v' = size_m v - 1 \<or>
                  Erase E (ptr_add (Vector_begin v) shift) (v, m) = Thrown elem_exn (v', m') \<and>
                    size_m v' = size_m v) \<and>
                 data_m v' = data_m v \<and> shape m' = shape m \<and> invariant_L v' m'))"
proof (intro conjI impI)
  assume "invariant_L v m \<and> 0 < size_m v"
  then obtain m' where "PopBack (v, m) = Ret () (v\<lparr>size_m := size_m v - 1\<rparr>, m')" "shape m' = shape m"
      "invariant_L (v\<lparr>size_m := size_m v - 1\<rparr>) m'"
    using PopBack_spec by blast
  then show "\<exists>v' m'. PopBack (v, m) = Ret () (v', m') \<and> size_m v' = size_m v - 1 \<and>
          data_m v' = data_m v \<and> shape m' = shape m \<and> invariant_L v' m'"
    by (intro exI[of _ "v\<lparr>size_m := size_m v - 1\<rparr>"] exI[of _ m']) simp
next
  assume "invariant_L v m \<and> shift < size_m v"
  then show "\<exists>v' m'. (Erase E (ptr_add (Vector_begin v) shift) (v, m)
                     = Ret (ptr_add (Vector_begin v) shift) (v', m') \<and> size_m v' = size_m v - 1 \<or>
                  Erase E (ptr_add (Vector_begin v) shift) (v, m) = Thrown elem_exn (v', m') \<and>
                    size_m v' = size_m v) \<and>
                 data_m v' = data_m v \<and> shape m' = shape m \<and> invariant_L v' m'"
    using Erase_spec by blast
qed

lemma invariant_L_two_of_two: "invariant_L (fst (two_of_two x y)) (snd (two_of_two x y))"
  by (simp add: invariant_L_def cells_of_def two_of_two_def)

theorem PopBack_Erase_keep_buffer_witness:
  "invariant_L (fst (two_of_two (1::int) 2)) (snd (two_of_two (1::int) 2)) \<and>
   0 < size_m (fst (two_of_two (1::int) 2)) \<and>
   (\<exists>v' m'. PopBack (two_of_two (1::int) 2) = Ret () (v', m') \<and>
       data_m v' = data_m (fst (two_of_two (1::int) 2)) \<and>
       shape m' = shape (snd (two_of_two (1::int) 2)) \<and> elements v' m' = [1]) \<and>
   (\<exists>v' m'. Erase T_int (ptr_add (Vector_begin (fst (two_of_two (1::int) 2))) 0) (two_of_two 1 2)
               = Ret (Some 0, 0) (v', m') \<and>
       data_m v' = data_m (fst (two_of_two (1::int) 2)) \<and>
       shape m' = shape (snd (two_of_two (1::int) 2)) \<and> elements v' m' = [2])"
proof -
  have h: "invariant_L (fst (two_of_two (1::int) 2)) (snd (two_of_two (1::int) 2)) \<and>
     0 < size_m (fst (two_of_two (1::int) 2))"
    by (simp add: invariant_L_two_of_two) (simp add: two_of_two_def)
  obtain v1 m1 where p: "PopBack (two_of_two (1::int) 2) = Ret () (v1, m1)"
      "v1 = \<lparr>data_m = \<lparr>buffer_m = (Some 0, 0), capacity_m = 2\<rparr>, size_m = 1\<rparr>"
      "heap m1 = (\<lambda>a. None)(0 \<mapsto> [Live 1, Raw])"
    by (simp add: run_defs loops_numeral two_of_two_def)
  obtain v2 m2 where e:
      "Erase T_int (ptr_add (Vector_begin (fst (two_of_two (1::int) 2))) 0) (two_of_two 1 2) =
         Ret (Some 0, 0) (v2, m2)"
      "v2 = \<lparr>data_m = \<lparr>buffer_m = (Some 0, 0), capacity_m = 2\<rparr>, size_m = 1\<rparr>"
      "heap m2 = (\<lambda>a. None)(0 \<mapsto> [Live 2, Raw])"
    by (simp add: run_defs loops_numeral two_of_two_def T_int_def)
  have el: "elements v1 m1 = [1]" "elements v2 m2 = [2]"
    by (simp_all add: p e elements_def cells_of_def List.map_filter_def)
  from PopBack_Erase_keep_buffer[of "fst (two_of_two (1::int) 2)" "snd (two_of_two (1::int) 2)" 0 T_int] h
  have "(\<exists>v' m'. PopBack (two_of_two (1::int) 2) = Ret () (v', m') \<and>
           data_m v' = data_m (fst (two_of_two (1::int) 2)) \<and>
           shape m' = shape (snd (two_of_two (1::int) 2)))"
    and "(\<exists>v' m'. (Erase T_int (ptr_add (Vector_begin (fst (two_of_two (1::int) 2))) 0) (two_of_two 1 2)
               = Ret (ptr_add (Vector_begin (fst (two_of_two (1::int) 2))) 0) (v', m') \<and>
                 size_m v' = size_m (fst (two_of_two (1::int) 2)) - 1 \<or>
               Erase T_int (ptr_add (Vector_begin (fst (two_of_two (1::int) 2))) 0) (two_of_two 1 2)
               = Thrown elem_exn (v', m') \<and> size_m v' = size_m (fst (two_of_two (1::int) 2))) \<and>
           data_m v' = data_m (fst (two_of_two (1::int) 2)) \<and>
           shape m' = shape (snd (two_of_two (1::int) 2)))"
    by auto
  then show ?thesis using h el p(1) e(1) by auto
qed

subsection \<open>\<open>EmplaceBack\<close>\<close>

lemma grown_capacity_pos: "0 < size_m v \<Longrightarrow> 2 * size_m v < 2 ^ 64 \<Longrightarrow> grown_capacity v = 2 * size_m v"
  by (simp add: grown_capacity_def size_t_mod_def mult.commute)





lemma EmplaceBack_in_place:
  assumes "size_m v < capacity_m (data_m v)"
  shows "EmplaceBack E call (v, m) =
           and_then (within v (placement_new (ptr_add (buffer_m (data_m v)) (size_m v)) call m))
             (\<lambda>r s1. Ret r (fst s1\<lparr>size_m := size_t_mod (size_m (fst s1) + 1)\<rparr>, snd s1))"
  using assms
  by (cases "placement_new (ptr_add (buffer_m (data_m v)) (size_m v)) call m")
     (auto simp: EmplaceBack_def Capacity_def RawMemory_Capacity_def RawMemory_plus_def
        split: prod.splits)



lemma performed_same_trace:
  "trace m1 = trace m \<Longrightarrow> trace m3 = trace m2 \<Longrightarrow> performed K c d m1 m2 \<Longrightarrow> performed K c d m m3"
  by (simp add: performed_def)


subsection \<open>What a normal return tells\<close>

lemma and_then_Ret:
  "and_then x f = Ret r s \<Longrightarrow> \<exists>r1 s1. x = Ret r1 s1 \<and> f r1 s1 = Ret r s"
  by (cases x) simp_all

lemma rethrow_after_not_Ret [simp]: "rethrow_after c e s \<noteq> Ret r s'"
  by (cases "c s") (simp_all add: rethrow_after_def)

lemma try_catch_rethrow_Ret:
  "try_catch x (rethrow_after c) = Ret r s \<Longrightarrow> x = Ret r s"
  by (cases x) simp_all

lemma destroy_built_not_Ret [simp]: "destroy_built d c e s \<noteq> Ret r s'"
  by (simp add: destroy_built_def)

lemma try_catch_destroy_built_Ret:
  "try_catch x (destroy_built d c) = Ret r s \<Longrightarrow> x = Ret r s"
  by (cases x) simp_all

lemma on_unwind_Ret: "on_unwind x c = Ret r s \<Longrightarrow> x = Ret r s"
  by (simp add: on_unwind_def try_catch_rethrow_Ret)

lemma within_Ret: "within v x = Ret r s \<Longrightarrow> x = Ret r (snd s) \<and> fst s = v"
  by (cases x) auto

lemma cell_exists_shape:
  "shape m' = shape m \<Longrightarrow> cell_at m' q = None \<longleftrightarrow> cell_at m q = None"
proof -
  assume sh: "shape m' = shape m"
  show ?thesis
  proof (cases "fst q")
    case None
    then show ?thesis by (simp add: cell_at_def)
  next
    case (Some a)
    have "map_option length (heap m' a) = map_option length (heap m a)"
      by (rule heap_shape_length[OF sh])
    then show ?thesis using Some
      by (cases "heap m a"; cases "heap m' a") (auto simp: cell_at_def)
  qed
qed

lemma placement_new_Ret:
  "placement_new p call m = Ret r m' \<Longrightarrow> cell_at m p = Some Raw \<and> shape m' = shape m"
  by (auto simp: placement_new_def split: option.splits cell.splits)

lemma copy_construct_Ret:
  "copy_construct E dst src m = Ret r m' \<Longrightarrow> cell_at m dst = Some Raw \<and> shape m' = shape m"
  by (auto simp: copy_construct_def dest: placement_new_Ret split: option.splits cell.splits)

lemma move_construct_Ret:
  "move_construct E dst src m = Ret r m' \<Longrightarrow> cell_at m dst \<noteq> None \<and> shape m' = shape m"
  by (auto simp: move_construct_def split: option.splits cell.splits prod.splits)

lemma copy_construct_loop_Ret:
  "copy_construct_loop E d first cur n m = Ret r m' \<Longrightarrow>
   shape m' = shape m \<and> (\<forall>i<n. cell_at m (ptr_add cur i) \<noteq> None)"
proof (induction n arbitrary: first cur m)
  case 0
  then show ?case by simp
next
  case (Suc n)
  from Suc.prems obtain r1 m1 where
    s: "try_catch (copy_construct E cur first m) (destroy_built d cur) = Ret r1 m1"
    and l: "copy_construct_loop E d (ptr_add first 1) (ptr_add cur 1) n m1 = Ret r m'"
    by (auto dest: and_then_Ret)
  from try_catch_destroy_built_Ret[OF s] have c: "cell_at m cur = Some Raw" "shape m1 = shape m"
    by (auto dest: copy_construct_Ret)
  from Suc.IH[OF l] have ih: "shape m' = shape m1" "\<forall>i<n. cell_at m1 (ptr_add (ptr_add cur 1) i) \<noteq> None"
    by auto
  have "cell_at m (ptr_add cur i) \<noteq> None" if "i < Suc n" for i
  proof (cases i)
    case 0
    then show ?thesis using c(1) by simp
  next
    case (Suc j)
    then have "cell_at m1 (ptr_add (ptr_add cur 1) j) \<noteq> None" using ih(2) that by simp
    then show ?thesis using cell_exists_shape[OF c(2)] Suc by simp
  qed
  then show ?case using ih(1) c(2) by simp
qed

lemma move_construct_loop_Ret:
  "move_construct_loop E d first cur n m = Ret r m' \<Longrightarrow>
   shape m' = shape m \<and> (\<forall>i<n. cell_at m (ptr_add cur i) \<noteq> None)"
proof (induction n arbitrary: first cur m)
  case 0
  then show ?case by simp
next
  case (Suc n)
  from Suc.prems obtain r1 m1 where
    s: "try_catch (move_construct E cur first m) (destroy_built d cur) = Ret r1 m1"
    and l: "move_construct_loop E d (ptr_add first 1) (ptr_add cur 1) n m1 = Ret r m'"
    by (auto dest: and_then_Ret)
  from try_catch_destroy_built_Ret[OF s] have c: "cell_at m cur \<noteq> None" "shape m1 = shape m"
    by (auto dest: move_construct_Ret)
  from Suc.IH[OF l] have ih: "shape m' = shape m1" "\<forall>i<n. cell_at m1 (ptr_add (ptr_add cur 1) i) \<noteq> None"
    by auto
  have "cell_at m (ptr_add cur i) \<noteq> None" if "i < Suc n" for i
  proof (cases i)
    case 0
    then show ?thesis using c(1) by simp
  next
    case (Suc j)
    then have "cell_at m1 (ptr_add (ptr_add cur 1) j) \<noteq> None" using ih(2) that by simp
    then show ?thesis using cell_exists_shape[OF c(2)] Suc by simp
  qed
  then show ?case using ih(1) c(2) by simp
qed

lemma RawMemory_ctor_Ret:
  "RawMemory_ctor E n m = Ret nd m1 \<Longrightarrow>
   capacity_m nd = n \<and> snd (buffer_m nd) = 0 \<and>
   (\<forall>i. cell_at m1 (ptr_add (buffer_m nd) i) \<noteq> None \<longrightarrow> i < n)"
proof -
  assume a: "RawMemory_ctor E n m = Ret nd m1"
  show ?thesis
  proof (cases "n = 0")
    case True
    then have "nd = \<lparr>buffer_m = (None, 0), capacity_m = 0\<rparr>"
      using a by (simp add: RawMemory_ctor_def Allocate_def)
    then show ?thesis using True by (simp add: ptr_add_def)
  next
    case False
    let ?b = "size_t_mod (n * sizeof_T E)"
    from a False have ok: "new_ok E (next_addr m) ?b"
      by (auto simp: RawMemory_ctor_def Allocate_def operator_new_def split: if_splits)
    from a False ok have nd: "nd = \<lparr>buffer_m = (Some (next_addr m), 0), capacity_m = n\<rparr>"
      and m1: "heap m1 (next_addr m) = Some (replicate (?b div sizeof_T E) Raw)"
      by (auto simp: RawMemory_ctor_def Allocate_def operator_new_def)
    have "?b div sizeof_T E \<le> n"
    proof (cases "sizeof_T E = 0")
      case True
      then show ?thesis by simp
    next
      case False
      have "?b \<le> n * sizeof_T E" by (simp add: size_t_mod_def)
      then have "?b div sizeof_T E \<le> n * sizeof_T E div sizeof_T E" by (rule div_le_mono)
      then show ?thesis using False by simp
    qed
    then show ?thesis using nd m1 by (auto simp: ptr_add_def cell_at_heap split: if_splits)
  qed
qed



lemma grown_capacity_less: "grown_capacity v < 2 ^ 64"
  by (simp add: grown_capacity_def size_t_mod_def)


lemma relocation_Ret:
  assumes "(if moves_elements (E :: 'a env) then
              and_then (uninitialized_move_n E f1 n1 d1 m) (\<lambda>_ m4. uninitialized_move_n E f2 n2 d2 m4)
            else
              try_catch
                (and_then (uninitialized_copy_n E f1 n1 d1 m)
                   (\<lambda>_ m4. uninitialized_copy_n E f2 n2 d2 m4))
                (rethrow_after c)) = Ret r m'"
  shows "\<exists>m4 :: 'a machine. shape m4 = shape m \<and> (\<forall>i<n2. cell_at m4 (ptr_add d2 i) \<noteq> None)"
proof (cases "moves_elements E")
  case True
  with assms obtain r1 m4 where "move_construct_loop E d1 f1 d1 n1 m = Ret r1 m4"
      "move_construct_loop E d2 f2 d2 n2 m4 = Ret r m'"
    by (auto simp: uninitialized_move_n_def dest!: and_then_Ret)
  then have "shape m4 = shape m" "\<forall>i<n2. cell_at m4 (ptr_add d2 i) \<noteq> None"
    by (auto dest!: move_construct_loop_Ret)
  then show ?thesis by blast
next
  case False
  with assms have "and_then (uninitialized_copy_n E f1 n1 d1 m)
                   (\<lambda>_ m4. uninitialized_copy_n E f2 n2 d2 m4) = Ret r m'"
    by (simp add: try_catch_rethrow_Ret)
  then obtain r1 m4 where "copy_construct_loop E d1 f1 d1 n1 m = Ret r1 m4"
      "copy_construct_loop E d2 f2 d2 n2 m4 = Ret r m'"
    by (auto simp: uninitialized_copy_n_def dest!: and_then_Ret)
  then have "shape m4 = shape m" "\<forall>i<n2. cell_at m4 (ptr_add d2 i) \<noteq> None"
    by (auto dest!: copy_construct_loop_Ret)
  then show ?thesis by blast
qed

lemma Emplace_Ret_grown:
  assumes full: "size_m v = Capacity v"
    and ret: "Emplace (E :: 'a env) pos call (v, m) = Ret r (v', m')"
  shows "Capacity v' = grown_capacity v \<and> size_m v < grown_capacity v \<and>
         (\<exists>offset. ptr_diff pos (Vector_begin v) = Some offset \<and> offset \<le> size_m v)"
proof -
  from ret obtain offset where pd: "ptr_diff pos (Vector_begin v) = Some offset"
    by (cases "ptr_diff pos (Vector_begin v)") (simp_all add: Emplace_def)
  define n2 where "n2 = size_t_minus (size_m v) offset"
  define R where "R = (\<lambda>nd m3.
     if moves_elements E then
       and_then
         (uninitialized_move_n E (Vector_begin v) offset (GetAddress nd) m3)
         (\<lambda>_ m4.
            uninitialized_move_n E (ptr_add (Vector_begin v) offset) n2
              (ptr_add (ptr_add (GetAddress nd) offset) 1) m4)
     else
       try_catch
         (and_then
            (uninitialized_copy_n E (Vector_begin v) offset (GetAddress nd) m3)
            (\<lambda>_ m4.
               uninitialized_copy_n E (ptr_add (Vector_begin v) offset) n2
                 (ptr_add (ptr_add (GetAddress nd) offset) 1) m4))
         (rethrow_after (destroy_n (ptr_add (GetAddress nd) offset) 1)))"
  define P where "P = (\<lambda>nd m1.
     and_then (RawMemory_plus nd offset m1) (\<lambda>p m2.
     and_then (placement_new p call m2) (\<lambda>result m3.
     and_then (R nd m3)
       (\<lambda>_ m5. and_then (destroy_n (Vector_begin v) (size_m v) m5) (\<lambda>_ m6. Ret result m6)))))"
  define S where "S = (\<lambda>nd (result :: ptr) (m7 :: 'a machine).
     case RawMemory_Swap (data_m v, nd) of (d, old_data) \<Rightarrow>
       and_then (RawMemory_dtor old_data m7) (\<lambda>_ m8. Ret (result, d) m8))"
  have unf: "Emplace E pos call (v, m) =
       and_then
         (within v
            (and_then (RawMemory_ctor E (grown_capacity v) m)
               (\<lambda>nd m1. and_then (on_unwind (P nd m1) (RawMemory_dtor nd)) (S nd))))
         (\<lambda>rd s1. case s1 of (v1, m9) \<Rightarrow>
            Ret (fst rd) (v1\<lparr>data_m := snd rd, size_m := size_t_mod (size_m v1 + 1)\<rparr>, m9))"
    using full[symmetric] pd unfolding P_def R_def S_def n2_def
    by (simp add: Emplace_def del: ptr_add_add)
  from ret[unfolded unf] obtain rd s1 where
    w: "within v
            (and_then (RawMemory_ctor E (grown_capacity v) m)
               (\<lambda>nd m1. and_then (on_unwind (P nd m1) (RawMemory_dtor nd)) (S nd))) = Ret rd s1"
    and v': "v' = (fst s1)\<lparr>data_m := snd rd, size_m := size_t_mod (size_m (fst s1) + 1)\<rparr>"
    by (auto dest!: and_then_Ret split: prod.splits)
  from within_Ret[OF w] obtain nd m1 where
    c: "RawMemory_ctor E (grown_capacity v) m = Ret nd m1"
    and b0: "and_then (on_unwind (P nd m1) (RawMemory_dtor nd)) (S nd) = Ret rd (snd s1)"
    by (auto dest!: and_then_Ret)
  from and_then_Ret[OF b0] obtain rs m7 where
    b: "on_unwind (P nd m1) (RawMemory_dtor nd) = Ret rs m7"
    and e: "S nd rs m7 = Ret rd (snd s1)"
    by blast
  from e have rd: "capacity_m (snd rd) = capacity_m nd"
    by (auto simp: S_def RawMemory_Swap_def dest!: and_then_Ret)
  from on_unwind_Ret[OF b] have "P nd m1 = Ret rs m7" .
  then obtain p m2 r3 m3 r5 m5 where
    pl: "RawMemory_plus nd offset m1 = Ret p m2"
    and pn: "placement_new p call m2 = Ret r3 m3"
    and rel0: "R nd m3 = Ret r5 m5"
    unfolding P_def by (auto dest!: and_then_Ret)
  note rel = rel0[unfolded R_def]
  from pl have p: "p = ptr_add (buffer_m nd) offset" "m2 = m1"
    by (auto simp: RawMemory_plus_def split: if_splits)
  from pn p have ex: "cell_at m1 (ptr_add (buffer_m nd) offset) \<noteq> None" and sh3: "shape m3 = shape m1"
    by (auto dest: placement_new_Ret)
  note cap = RawMemory_ctor_Ret[OF c]
  have og: "offset < grown_capacity v" using ex cap by blast
  from relocation_Ret[OF rel] obtain m4 :: "'a machine" where m4: "shape m4 = shape m3"
    "\<forall>i<n2. cell_at m4 (ptr_add (ptr_add (ptr_add (GetAddress nd) offset) 1) i) \<noteq> None"
    by blast
  have last: "offset + n2 < grown_capacity v" if "0 < n2"
  proof -
    have "n2 - 1 < n2" using that by simp
    from m4(2)[rule_format, OF this]
    have "cell_at m4 (ptr_add (ptr_add (ptr_add (GetAddress nd) offset) 1) (n2 - 1)) \<noteq> None" .
    then have "cell_at m1 (ptr_add (buffer_m nd) (offset + n2)) \<noteq> None"
      using cell_exists_shape[of m4 m1] m4(1) sh3 that by (simp add: GetAddress_def)
    then show ?thesis using cap by blast
  qed
  have ole: "offset \<le> size_m v"
  proof (rule ccontr)
    assume False: "\<not> offset \<le> size_m v"
    have o64: "offset < 2 ^ 64" using og grown_capacity_less[of v] by simp
    then have n2: "n2 = 2 ^ 64 - (offset - size_m v)" "0 < n2"
      using False by (simp_all add: n2_def size_t_minus_def)
    then have "offset + n2 = 2 ^ 64 + size_m v" using False o64 by simp
    then have "2 ^ 64 < grown_capacity v" using last[OF n2(2)] by simp
    then show False using grown_capacity_less[of v] by simp
  qed
  then have n2: "n2 = size_m v - offset" by (simp add: n2_def size_t_minus_def)
  have "size_m v < grown_capacity v"
  proof (cases "n2 = 0")
    case True
    then show ?thesis using n2 ole og by simp
  next
    case False
    then show ?thesis using last n2 ole by simp
  qed
  moreover have "Capacity v' = grown_capacity v"
    using v' rd cap by (simp add: Capacity_def RawMemory_Capacity_def)
  ultimately show ?thesis using pd ole by simp
qed







section \<open>The operations an operation records\<close>

subsection \<open>Rules for \<open>ensures\<close>\<close>

lemma ensures_mono:
  "ensures R T x \<Longrightarrow> (\<And>r s. R r s \<Longrightarrow> R' r s) \<Longrightarrow> (\<And>e s. T e s \<Longrightarrow> T' e s) \<Longrightarrow> ensures R' T' x"
  by (cases x) simp_all

lemma ensures_and_then:
  "ensures R1 T x \<Longrightarrow> (\<And>r s. R1 r s \<Longrightarrow> ensures R T (f r s)) \<Longrightarrow> ensures R T (and_then x f)"
  by (cases x) simp_all

lemma ensures_try_catch:
  "ensures R T1 x \<Longrightarrow> (\<And>e s. T1 e s \<Longrightarrow> ensures R T (h e s)) \<Longrightarrow> ensures R T (try_catch x h)"
  by (cases x) simp_all

lemma ensures_rethrow_after:
  "ensures (\<lambda>_. T e) T (cleanup s) \<Longrightarrow> ensures R T (rethrow_after cleanup e s)"
  by (cases "cleanup s") (simp_all add: rethrow_after_def)

lemma ensures_within:
  "ensures (\<lambda>r m. R r (v, m)) (\<lambda>e m. T e (v, m)) x \<Longrightarrow> ensures R T (within v x)"
  by (cases x) simp_all

subsection \<open>Histories\<close>

lemma continues_iff: "continues m m' \<longleftrightarrow> (\<exists>evs. trace m' = trace m @ evs)"
proof
  assume "continues m m'"
  then have "trace m' = trace m @ drop (length (trace m)) (trace m')"
    unfolding continues_def by (metis append_take_drop_id)
  then show "\<exists>evs. trace m' = trace m @ evs" ..
next
  assume "\<exists>evs. trace m' = trace m @ evs"
  then show "continues m m'" by (auto simp: continues_def)
qed

lemma events_since_append: "trace m' = trace m @ evs \<Longrightarrow> events_since m m' = evs"
  by (simp add: events_since_def)

lemma kinds_within_iff:
  "kinds_within sk K m m' \<longleftrightarrow>
     (\<exists>evs. trace m' = trace m @ evs \<and> kind_of ` set (drop sk evs) \<subseteq> K)"
  unfolding kinds_within_def continues_iff by (auto simp: events_since_append)

lemma recorded_iff:
  "recorded sk K k c m m' \<longleftrightarrow>
     (\<exists>evs. trace m' = trace m @ evs \<and> kind_of ` set (drop sk evs) \<subseteq> K \<and>
            constructions k (drop sk evs) = c)"
  unfolding recorded_def kinds_within_def continues_iff by (auto simp: events_since_append)

lemma constructions_append [simp]:
  "constructions k (xs @ ys) = constructions k xs + constructions k ys"
  by (simp add: constructions_def)

lemma constructions_Nil [simp]: "constructions k [] = 0"
  by (simp add: constructions_def)

lemma constructions_other: "k \<notin> kind_of ` set evs \<Longrightarrow> constructions k evs = 0"
  by (induction evs) (auto simp: constructions_def)

lemma recorded_kinds: "recorded sk K k c m m' \<Longrightarrow> kinds_within sk K m m'"
  by (simp add: recorded_def)

lemma recorded_same: "trace m' = trace m \<Longrightarrow> recorded sk K k 0 m m'"
  by (simp add: recorded_iff)

lemma kinds_within_same: "trace m' = trace m \<Longrightarrow> kinds_within sk K m m'"
  by (simp add: kinds_within_iff)

lemma recorded_from: "trace m1 = trace m \<Longrightarrow> recorded sk K k c m1 m' = recorded sk K k c m m'"
  by (simp add: recorded_iff)

lemma kinds_within_from: "trace m1 = trace m \<Longrightarrow> kinds_within sk K m1 m' = kinds_within sk K m m'"
  by (simp add: kinds_within_iff)

lemma recorded_to: "trace m2 = trace m' \<Longrightarrow> recorded sk K k c m m2 = recorded sk K k c m m'"
  by (simp add: recorded_iff)

lemma kinds_within_to: "trace m2 = trace m' \<Longrightarrow> kinds_within sk K m m2 = kinds_within sk K m m'"
  by (simp add: kinds_within_iff)

lemma recorded_trans:
  "recorded 0 K k c1 m m1 \<Longrightarrow> recorded 0 K k c2 m1 m2 \<Longrightarrow> recorded 0 K k (c1 + c2) m m2"
  unfolding recorded_iff by (elim exE conjE) (rule_tac x = "evs @ evsa" in exI, auto)

lemma kinds_within_trans:
  "kinds_within 0 K m m1 \<Longrightarrow> kinds_within 0 K m1 m2 \<Longrightarrow> kinds_within 0 K m m2"
  unfolding kinds_within_iff by (elim exE conjE) (rule_tac x = "evs @ evsa" in exI, auto)

lemma recorded_mono: "recorded sk K k c m m' \<Longrightarrow> K \<subseteq> K' \<Longrightarrow> recorded sk K' k c m m'"
  unfolding recorded_iff by blast

lemma kinds_within_mono: "kinds_within sk K m m' \<Longrightarrow> K \<subseteq> K' \<Longrightarrow> kinds_within sk K' m m'"
  unfolding kinds_within_iff by blast

lemma recorded_other: "recorded sk K k c m m' \<Longrightarrow> k' \<notin> K \<Longrightarrow> recorded sk K k' 0 m m'"
  unfolding recorded_iff by (elim exE conjE) (rule_tac x = evs in exI, auto intro: constructions_other)

lemma recorded_after_first:
  "trace m1 = trace m @ [ev] \<Longrightarrow> recorded 0 K k c m1 m' \<Longrightarrow> recorded 1 K k c m m'"
  unfolding recorded_iff by (elim exE conjE) (rule_tac x = "ev # evs" in exI, simp)

lemma kinds_within_after_first:
  "trace m1 = trace m @ [ev] \<Longrightarrow> kinds_within 0 K m1 m' \<Longrightarrow> kinds_within 1 K m m'"
  unfolding kinds_within_iff by (elim exE conjE) (rule_tac x = "ev # evs" in exI, simp)

lemma kinds_within_first: "trace m' = trace m @ [ev] \<Longrightarrow> kinds_within 1 K m m'"
  by (simp add: kinds_within_iff)

subsection \<open>Rules for \<open>follows\<close>\<close>

lemma follows_Ret: "trace (mach s) = trace m \<Longrightarrow> follows mach sk K k 0 m (Ret r s)"
  by (simp add: follows_def recorded_same)

lemma follows_mono: "follows mach sk K k c m x \<Longrightarrow> K \<subseteq> K' \<Longrightarrow> follows mach sk K' k c m x"
  unfolding follows_def
  by (erule ensures_mono) (auto intro: recorded_mono kinds_within_mono)

lemma follows_other: "follows mach sk K k c m x \<Longrightarrow> k' \<notin> K \<Longrightarrow> follows mach sk K k' 0 m x"
  unfolding follows_def
  by (erule ensures_mono) (auto intro: recorded_other)

lemma follows_and_then:
  assumes "follows mach 0 K k c1 m x"
    and "\<And>r s. follows mach 0 K k c2 (mach s) (f r s)"
  shows "follows mach 0 K k (c1 + c2) m (and_then x f)"
  unfolding follows_def
proof (rule ensures_and_then)
  show "ensures (\<lambda>r s. recorded 0 K k c1 m (mach s)) (\<lambda>e s. kinds_within 0 K m (mach s)) x"
    using assms(1) by (simp add: follows_def)
next
  fix r s
  assume a: "recorded 0 K k c1 m (mach s)"
  show "ensures (\<lambda>r s. recorded 0 K k (c1 + c2) m (mach s)) (\<lambda>e s. kinds_within 0 K m (mach s)) (f r s)"
    using assms(2)[of s r] unfolding follows_def
    by (rule ensures_mono)
       (auto intro: recorded_trans[OF a] kinds_within_trans[OF recorded_kinds[OF a]])
qed

lemma follows_quiet_then:
  assumes "ensures (\<lambda>_ s. trace (mach s) = trace m) (\<lambda>_ s. trace (mach s) = trace m) x"
    and "\<And>r s. follows mach sk K k c (mach s) (f r s)"
  shows "follows mach sk K k c m (and_then x f)"
  unfolding follows_def
proof (rule ensures_and_then)
  show "ensures (\<lambda>_ s. trace (mach s) = trace m) (\<lambda>e s. kinds_within sk K m (mach s)) x"
    using assms(1) by (rule ensures_mono) (auto intro: kinds_within_same)
next
  fix r s
  assume a: "trace (mach s) = trace m"
  show "ensures (\<lambda>r s. recorded sk K k c m (mach s)) (\<lambda>e s. kinds_within sk K m (mach s)) (f r s)"
    using assms(2)[of s r] unfolding follows_def
    by (simp add: recorded_from[OF a] kinds_within_from[OF a])
qed

lemma follows_then_quiet:
  assumes "follows mach sk K k c m x"
    and "\<And>r s. ensures (\<lambda>_ s'. trace (mach s') = trace (mach s))
                 (\<lambda>_ s'. trace (mach s') = trace (mach s)) (f r s)"
  shows "follows mach sk K k c m (and_then x f)"
  unfolding follows_def
proof (rule ensures_and_then)
  show "ensures (\<lambda>r s. recorded sk K k c m (mach s)) (\<lambda>e s. kinds_within sk K m (mach s)) x"
    using assms(1) by (simp add: follows_def)
next
  fix r s
  assume a: "recorded sk K k c m (mach s)"
  show "ensures (\<lambda>r s. recorded sk K k c m (mach s)) (\<lambda>e s. kinds_within sk K m (mach s)) (f r s)"
    using assms(2)[of s r]
  proof (rule ensures_mono)
    fix r' s'
    assume "trace (mach s') = trace (mach s)"
    then show "recorded sk K k c m (mach s')" using a by (simp only: recorded_to[of "mach s'" "mach s"])
  next
    fix e s'
    assume "trace (mach s') = trace (mach s)"
    then show "kinds_within sk K m (mach s')"
      using recorded_kinds[OF a] by (simp only: kinds_within_to[of "mach s'" "mach s"])
  qed
qed

lemma follows_on_unwind:
  assumes "follows mach sk K k c m x"
    and "\<And>s. ensures (\<lambda>_ s'. trace (mach s') = trace (mach s))
               (\<lambda>_ s'. trace (mach s') = trace (mach s)) (cleanup s)"
  shows "follows mach sk K k c m (on_unwind x cleanup)"
  unfolding follows_def on_unwind_def
proof (rule ensures_try_catch)
  show "ensures (\<lambda>r s. recorded sk K k c m (mach s)) (\<lambda>e s. kinds_within sk K m (mach s)) x"
    using assms(1) by (simp add: follows_def)
next
  fix e s
  assume a: "kinds_within sk K m (mach s)"
  show "ensures (\<lambda>r s. recorded sk K k c m (mach s)) (\<lambda>e s. kinds_within sk K m (mach s))
          (rethrow_after cleanup e s)"
  proof (rule ensures_rethrow_after)
    show "ensures (\<lambda>_ s. kinds_within sk K m (mach s)) (\<lambda>e s. kinds_within sk K m (mach s)) (cleanup s)"
      using assms(2)[of s]
    proof (rule ensures_mono)
      fix r' s'
      assume "trace (mach s') = trace (mach s)"
      then show "kinds_within sk K m (mach s')"
        using a by (simp only: kinds_within_to[of "mach s'" "mach s"])
    next
      fix e' s'
      assume "trace (mach s') = trace (mach s)"
      then show "kinds_within sk K m (mach s')"
        using a by (simp only: kinds_within_to[of "mach s'" "mach s"])
    qed
  qed
qed

lemma follows_try_rethrow:
  assumes "follows mach 0 K k c m x"
    and "\<And>s. follows mach 0 K k c' (mach s) (cleanup s)"
  shows "follows mach 0 K k c m (try_catch x (rethrow_after cleanup))"
  unfolding follows_def
proof (rule ensures_try_catch)
  show "ensures (\<lambda>r s. recorded 0 K k c m (mach s)) (\<lambda>e s. kinds_within 0 K m (mach s)) x"
    using assms(1) by (simp add: follows_def)
next
  fix e s
  assume a: "kinds_within 0 K m (mach s)"
  show "ensures (\<lambda>r s. recorded 0 K k c m (mach s)) (\<lambda>e s. kinds_within 0 K m (mach s))
          (rethrow_after cleanup e s)"
  proof (rule ensures_rethrow_after)
    show "ensures (\<lambda>_ s. kinds_within 0 K m (mach s)) (\<lambda>e s. kinds_within 0 K m (mach s)) (cleanup s)"
      using assms(2)[of s] unfolding follows_def
      by (rule ensures_mono) (auto intro: kinds_within_trans[OF a] recorded_kinds)
  qed
qed

lemma follows_within:
  "follows (\<lambda>m. m) sk K k c m x \<Longrightarrow> follows snd sk K k c m (within v x)"
  unfolding follows_def by (rule ensures_within) simp

lemma follows_after_placement_new:
  assumes "\<And>r m3. follows (\<lambda>m. m) 0 K k c m3 (f r m3)"
  shows "follows (\<lambda>m. m) 1 K k c m (and_then (placement_new p call m) f)"
proof (cases "placement_new p call m")
  case (Ret r m3)
  then obtain x where t: "trace m3 = trace m @ [x]"
    by (auto simp: placement_new_def split: option.splits cell.splits)
  show ?thesis
    using assms[of m3 r] unfolding follows_def Ret and_then.simps
    by (rule ensures_mono)
       (auto simp del: One_nat_def intro: recorded_after_first[OF t] kinds_within_after_first[OF t])
next
  case (Thrown e m3)
  then have "trace m3 = trace m @ [Failed (fst call)]"
    by (auto simp: placement_new_def split: option.splits cell.splits)
  then show ?thesis by (simp add: Thrown follows_def kinds_within_first del: One_nat_def)
qed (simp_all add: follows_def)

subsection \<open>What the algorithms record\<close>

lemma placement_new_follows:
  "k \<in> {Args_ctor, Value_init, Copy_ctor, Move_ctor} \<Longrightarrow>
   follows (\<lambda>m. m) 0 {k} k 1 m (placement_new p (k, g) m)"
  by (auto simp: follows_def placement_new_def recorded_iff kinds_within_iff constructions_def
      split: option.splits cell.splits)

lemma copy_construct_follows:
  "follows (\<lambda>m. m) 0 {Copy_ctor} Copy_ctor 1 m (copy_construct E dst src m)"
  using placement_new_follows[of Copy_ctor m dst]
  by (auto simp: copy_construct_def follows_def split: option.splits cell.splits)

lemma move_construct_follows:
  "follows (\<lambda>m. m) 0 {Move_ctor} Move_ctor 1 m (move_construct E dst src m)"
  by (auto simp: follows_def move_construct_def recorded_iff kinds_within_iff constructions_def
      split: option.splits cell.splits prod.splits)

lemma destroy_at_follows: "follows (\<lambda>m. m) 0 {Dtor} k 0 m (destroy_at p m)"
  by (auto simp: follows_def destroy_at_def recorded_iff kinds_within_iff constructions_def
      split: option.splits cell.splits)

lemma destroy_n_follows: "follows (\<lambda>m. m) 0 {Dtor} k 0 m (destroy_n p n m)"
proof (induction n arbitrary: p m)
  case 0
  then show ?case by (simp add: follows_Ret)
next
  case (Suc n)
  have "follows (\<lambda>m. m) 0 {Dtor} k (0 + 0) m
          (and_then (destroy_at p m) (\<lambda>_ m1. destroy_n (ptr_add p 1) n m1))"
    by (rule follows_and_then[OF destroy_at_follows]) (rule Suc.IH)
  then show ?case by simp
qed

lemma destroy_built_follows:
  assumes "follows (\<lambda>m. m) 0 {k} k c m x"
  shows "follows (\<lambda>m. m) 0 {k, Dtor} k c m (try_catch x (destroy_built d cur))"
  unfolding destroy_built_def
proof (rule follows_try_rethrow)
  show "follows (\<lambda>m. m) 0 {k, Dtor} k c m x"
    using assms by (rule follows_mono) simp
next
  fix s :: "'a machine"
  show "follows (\<lambda>m. m) 0 {k, Dtor} k 0 s (destroy_n d (snd cur - snd d) s)"
    by (rule follows_mono[OF destroy_n_follows]) simp
qed

lemma value_construct_loop_follows:
  "follows (\<lambda>m. m) 0 {Value_init, Dtor} Value_init n m (value_construct_loop E d cur n m)"
proof (induction n arbitrary: cur m)
  case 0
  then show ?case by (simp add: follows_Ret)
next
  case (Suc n)
  have "follows (\<lambda>m. m) 0 {Value_init, Dtor} Value_init (1 + n) m
          (and_then
             (try_catch (placement_new cur (Value_init, value_init E) m) (destroy_built d cur))
             (\<lambda>_ m1. value_construct_loop E d (ptr_add cur 1) n m1))"
    by (rule follows_and_then[OF destroy_built_follows[OF placement_new_follows]]) (simp, rule Suc.IH)
  then show ?case by simp
qed

lemma copy_construct_loop_follows:
  "follows (\<lambda>m. m) 0 {Copy_ctor, Dtor} Copy_ctor n m (copy_construct_loop E d first cur n m)"
proof (induction n arbitrary: first cur m)
  case 0
  then show ?case by (simp add: follows_Ret)
next
  case (Suc n)
  have "follows (\<lambda>m. m) 0 {Copy_ctor, Dtor} Copy_ctor (1 + n) m
          (and_then
             (try_catch (copy_construct E cur first m) (destroy_built d cur))
             (\<lambda>_ m1. copy_construct_loop E d (ptr_add first 1) (ptr_add cur 1) n m1))"
    by (rule follows_and_then[OF destroy_built_follows[OF copy_construct_follows]]) (rule Suc.IH)
  then show ?case by simp
qed

lemma move_construct_loop_follows:
  "follows (\<lambda>m. m) 0 {Move_ctor, Dtor} Move_ctor n m (move_construct_loop E d first cur n m)"
proof (induction n arbitrary: first cur m)
  case 0
  then show ?case by (simp add: follows_Ret)
next
  case (Suc n)
  have "follows (\<lambda>m. m) 0 {Move_ctor, Dtor} Move_ctor (1 + n) m
          (and_then
             (try_catch (move_construct E cur first m) (destroy_built d cur))
             (\<lambda>_ m1. move_construct_loop E d (ptr_add first 1) (ptr_add cur 1) n m1))"
    by (rule follows_and_then[OF destroy_built_follows[OF move_construct_follows]]) (rule Suc.IH)
  then show ?case by simp
qed

lemma RawMemory_ctor_quiet:
  "ensures (\<lambda>_ m'. trace m' = trace m) (\<lambda>_ m'. trace m' = trace m) (RawMemory_ctor E n m)"
  by (simp add: RawMemory_ctor_def Allocate_def operator_new_def)

lemma RawMemory_dtor_quiet:
  "ensures (\<lambda>_ m'. trace m' = trace m) (\<lambda>_ m'. trace m' = trace m) (RawMemory_dtor d m)"
  by (simp add: RawMemory_dtor_def Deallocate_def operator_delete_def split: option.splits)

lemma RawMemory_plus_quiet:
  "ensures (\<lambda>_ m'. trace m' = trace m) (\<lambda>_ m'. trace m' = trace m) (RawMemory_plus d n m)"
  by (simp add: RawMemory_plus_def)

lemma release_quiet:
  "ensures (\<lambda>_ m'. trace m' = trace m) (\<lambda>_ m'. trace m' = trace m)
     (case RawMemory_Swap (d, nd) of (d1, old_data) \<Rightarrow>
        and_then (RawMemory_dtor old_data m) (\<lambda>_ m4. Ret (g d1) m4))"
  by (simp add: RawMemory_Swap_def RawMemory_dtor_def Deallocate_def operator_delete_def
      split: option.splits)

subsection \<open>What the operations of \<open>Vector\<close> record\<close>

lemma relocation_ctor_cases:
  "moves_elements E \<Longrightarrow> relocation_ctor E = Move_ctor \<and> excluded_ctor E = Copy_ctor"
  "\<not> moves_elements E \<Longrightarrow> relocation_ctor E = Copy_ctor \<and> excluded_ctor E = Move_ctor"
  by (simp_all add: moves_elements_def relocation_ctor_def excluded_ctor_def)

lemma relocation_ctor_neq [simp]:
  "relocation_ctor E \<noteq> excluded_ctor E" "relocation_ctor E \<noteq> Dtor" "relocation_ctor E \<noteq> Value_init"
  "excluded_ctor E \<noteq> Dtor" "excluded_ctor E \<noteq> Value_init"
  by (simp_all add: relocation_ctor_def excluded_ctor_def)

lemma relocation_follows:
  "follows (\<lambda>m. m) 0 {relocation_ctor E, Dtor} (relocation_ctor E) n m
     (if moves_elements E then uninitialized_move_n E f n d m else uninitialized_copy_n E f n d m)"
  by (cases "moves_elements E")
     (simp_all add: relocation_ctor_cases uninitialized_move_n_def uninitialized_copy_n_def
        move_construct_loop_follows copy_construct_loop_follows)

lemma guarded_relocation_follows:
  "follows (\<lambda>m. m) 0 {relocation_ctor E, Dtor} (relocation_ctor E) n m
     (if moves_elements E then uninitialized_move_n E f n d m
      else try_catch (uninitialized_copy_n E f n d m) (rethrow_after (destroy_n q 1)))"
proof (cases "moves_elements E")
  case True
  then show ?thesis
    by (simp add: relocation_ctor_cases uninitialized_move_n_def move_construct_loop_follows)
next
  case False
  have "follows (\<lambda>m. m) 0 {Copy_ctor, Dtor} Copy_ctor n m
          (try_catch (uninitialized_copy_n E f n d m) (rethrow_after (destroy_n q 1)))"
    unfolding uninitialized_copy_n_def
    by (rule follows_try_rethrow[OF copy_construct_loop_follows])
       (rule follows_mono[OF destroy_n_follows], simp)
  then show ?thesis using False by (simp add: relocation_ctor_cases)
qed

lemma Reserve_follows:
  "follows snd 0 {relocation_ctor E, Dtor} (relocation_ctor E)
     (if n \<le> RawMemory_Capacity (data_m v) then 0 else size_m v) m (Reserve E n (v, m))"
proof (cases "n \<le> RawMemory_Capacity (data_m v)")
  case True
  then show ?thesis by (simp add: Reserve_def follows_Ret)
next
  case False
  have body: "follows (\<lambda>m. m) 0 {relocation_ctor E, Dtor} (relocation_ctor E) (size_m v + 0) m1
      (and_then
         (if moves_elements E then
            uninitialized_move_n E (GetAddress (data_m v)) (size_m v) (GetAddress nd) m1
          else
            uninitialized_copy_n E (GetAddress (data_m v)) (size_m v) (GetAddress nd) m1)
         (\<lambda>_ m2. destroy_n (GetAddress (data_m v)) (size_m v) m2))" for nd and m1 :: "'a machine"
    by (rule follows_and_then[OF relocation_follows]) (rule follows_mono[OF destroy_n_follows], simp)
  show ?thesis
    using False unfolding Reserve_def
    apply (simp only: prod.case if_False)
    apply (rule follows_then_quiet)
     apply (rule follows_within)
     apply (rule follows_quiet_then[OF RawMemory_ctor_quiet])
     apply (rule follows_then_quiet)
      apply (rule follows_on_unwind)
       apply (rule body[simplified])
      apply (rule RawMemory_dtor_quiet)
     apply (rule release_quiet)
    apply (simp split: prod.splits)
    done
qed

lemma Resize_follows:
  "follows snd 0 {relocation_ctor E, Dtor, Value_init} (relocation_ctor E)
     (if size_m v < n \<and> \<not> n \<le> RawMemory_Capacity (data_m v) then size_m v else 0) m
     (Resize E n (v, m))"
proof (cases "size_m v < n")
  case True
  have fill: "follows snd 0 {relocation_ctor E, Dtor, Value_init} (relocation_ctor E) 0 (snd s1)
      (case s1 of (v1, m1) \<Rightarrow>
         within v1
           (and_then
              (uninitialized_value_construct_n E
                 (ptr_add (GetAddress (data_m v1)) (size_m v1)) (n - size_m v1) m1)
              (\<lambda>_ m2. Ret () m2)))" for s1 :: "Vector \<times> 'a machine"
  proof (cases s1)
    case (Pair v1 m1)
    have "follows (\<lambda>m. m) 0 {Value_init, Dtor} (relocation_ctor E) 0 m1
            (uninitialized_value_construct_n E
               (ptr_add (GetAddress (data_m v1)) (size_m v1)) (n - size_m v1) m1)"
      unfolding uninitialized_value_construct_n_def
      by (rule follows_other[OF value_construct_loop_follows]) simp
    then have "follows (\<lambda>m. m) 0 {relocation_ctor E, Dtor, Value_init} (relocation_ctor E) 0 m1
            (uninitialized_value_construct_n E
               (ptr_add (GetAddress (data_m v1)) (size_m v1)) (n - size_m v1) m1)"
      by (rule follows_mono) auto
    then have "follows (\<lambda>m. m) 0 {relocation_ctor E, Dtor, Value_init} (relocation_ctor E) 0 m1
            (and_then
               (uninitialized_value_construct_n E
                  (ptr_add (GetAddress (data_m v1)) (size_m v1)) (n - size_m v1) m1)
               (\<lambda>_ m2. Ret () m2))"
      by (rule follows_then_quiet) simp
    then show ?thesis
      unfolding Pair prod.case snd_conv by (rule follows_within)
  qed
  have "follows snd 0 {relocation_ctor E, Dtor, Value_init} (relocation_ctor E)
          ((if n \<le> RawMemory_Capacity (data_m v) then 0 else size_m v) + 0) m
          (and_then (Reserve E n (v, m)) (\<lambda>_ s1.
             case s1 of (v1, m1) \<Rightarrow>
               within v1
                 (and_then
                    (uninitialized_value_construct_n E
                       (ptr_add (GetAddress (data_m v1)) (size_m v1)) (n - size_m v1) m1)
                    (\<lambda>_ m2. Ret () m2))))"
    (is "follows snd 0 ?K ?k ?c m ?x")
    by (rule follows_and_then[OF follows_mono[OF Reserve_follows]]) (simp, rule fill)
  note F = this
  have cnt: "(if size_m v < n \<and> \<not> n \<le> RawMemory_Capacity (data_m v) then size_m v else 0) =
      (if n \<le> RawMemory_Capacity (data_m v) then 0 else size_m v) + 0"
    using True by simp
  have c: "(size_m v < n) = True" using True by simp
  show ?thesis
    unfolding Resize_def cnt
    apply (simp only: fst_conv c if_True)
    apply (rule follows_then_quiet)
     apply (rule F)
    apply (simp split: prod.splits)
    done
next
  case False
  have "follows snd 0 {relocation_ctor E, Dtor, Value_init} (relocation_ctor E) 0 m
          (within v (destroy_n (ptr_add (GetAddress (data_m v)) n) (size_m v - n) m))"
    by (rule follows_within, rule follows_mono[OF destroy_n_follows]) simp
  note F = this
  have cnt: "(if size_m v < n \<and> \<not> n \<le> RawMemory_Capacity (data_m v) then size_m v else 0) = 0"
    using False by simp
  have c: "(size_m v < n) = False" using False by simp
  show ?thesis
    unfolding Resize_def cnt
    apply (simp only: fst_conv c if_False prod.case)
    apply (rule follows_then_quiet)
     apply (rule F)
    apply (simp split: prod.splits)
    done
qed

lemma EmplaceBack_follows:
  assumes full: "size_m v = Capacity v"
  shows "follows snd 1 {relocation_ctor E, Dtor} (relocation_ctor E) (size_m v) m
           (EmplaceBack E call (v, m))"
proof -
  have body: "follows (\<lambda>m. m) 0 {relocation_ctor E, Dtor} (relocation_ctor E) (size_m v + 0) m3
      (and_then
         (if moves_elements E then
            uninitialized_move_n E (GetAddress (data_m v)) (size_m v) (GetAddress nd) m3
          else
            try_catch
              (uninitialized_copy_n E (GetAddress (data_m v)) (size_m v) (GetAddress nd) m3)
              (rethrow_after (destroy_n (ptr_add (GetAddress nd) (size_m v)) 1)))
         (\<lambda>_ m4. and_then (destroy_n (GetAddress (data_m v)) (size_m v) m4)
                    (\<lambda>_ m5. Ret result m5)))"
    for nd and result :: ptr and m3 :: "'a machine"
    apply (rule follows_and_then[OF guarded_relocation_follows])
    apply (rule follows_then_quiet)
     apply (rule follows_mono[OF destroy_n_follows], simp)
    apply simp
    done
  have c: "(size_m v = Capacity v) = True" using full by simp
  show ?thesis
    unfolding EmplaceBack_def
    apply (simp only: prod.case c if_True)
    apply (rule follows_then_quiet)
     apply (rule follows_within)
     apply (rule follows_quiet_then[OF RawMemory_ctor_quiet])
     apply (rule follows_then_quiet)
      apply (rule follows_on_unwind)
       apply (rule follows_quiet_then[OF RawMemory_plus_quiet])
       apply (rule follows_after_placement_new)
       apply (rule body[simplified])
      apply (rule RawMemory_dtor_quiet)
     apply (rule release_quiet)
    apply (simp split: prod.splits)
    done
qed

lemma Emplace_follows:
  assumes full: "size_m v = Capacity v"
    and pd: "ptr_diff pos (Vector_begin v) = Some offset"
  shows "follows snd 1 {relocation_ctor E, Dtor} (relocation_ctor E)
           (offset + size_t_minus (size_m v) offset) m (Emplace E pos call (v, m))"
proof -
  have moves: "follows (\<lambda>m. m) 0 {Move_ctor, Dtor} Move_ctor (offset + n2) m3
      (and_then (uninitialized_move_n E f1 offset d1 m3)
         (\<lambda>_ m4. uninitialized_move_n E f2 n2 d2 m4))"
    for f1 d1 f2 d2 n2 and m3 :: "'a machine"
    unfolding uninitialized_move_n_def
    by (rule follows_and_then[OF move_construct_loop_follows]) (rule move_construct_loop_follows)
  have copies: "follows (\<lambda>m. m) 0 {Copy_ctor, Dtor} Copy_ctor (offset + n2) m3
      (try_catch
         (and_then (uninitialized_copy_n E f1 offset d1 m3)
            (\<lambda>_ m4. uninitialized_copy_n E f2 n2 d2 m4))
         (rethrow_after (destroy_n q 1)))"
    for f1 d1 f2 d2 n2 q and m3 :: "'a machine"
    unfolding uninitialized_copy_n_def
    apply (rule follows_try_rethrow)
     apply (rule follows_and_then[OF copy_construct_loop_follows])
     apply (rule copy_construct_loop_follows)
    apply (rule follows_mono[OF destroy_n_follows], simp)
    done
  have reloc: "follows (\<lambda>m. m) 0 {relocation_ctor E, Dtor} (relocation_ctor E) (offset + n2) m3
      (if moves_elements E then
         and_then (uninitialized_move_n E f1 offset d1 m3)
           (\<lambda>_ m4. uninitialized_move_n E f2 n2 d2 m4)
       else
         try_catch
           (and_then (uninitialized_copy_n E f1 offset d1 m3)
              (\<lambda>_ m4. uninitialized_copy_n E f2 n2 d2 m4))
           (rethrow_after (destroy_n q 1)))"
    for f1 d1 f2 d2 n2 q and m3 :: "'a machine"
    using moves copies
    by (cases "moves_elements E") (simp_all add: relocation_ctor_cases)
  have body: "follows (\<lambda>m. m) 0 {relocation_ctor E, Dtor} (relocation_ctor E) (offset + n2 + 0) m3
      (and_then
         (if moves_elements E then
            and_then (uninitialized_move_n E f1 offset d1 m3)
              (\<lambda>_ m4. uninitialized_move_n E f2 n2 d2 m4)
          else
            try_catch
              (and_then (uninitialized_copy_n E f1 offset d1 m3)
                 (\<lambda>_ m4. uninitialized_copy_n E f2 n2 d2 m4))
              (rethrow_after (destroy_n q 1)))
         (\<lambda>_ m5. and_then (destroy_n p n m5) (\<lambda>_ m6. Ret result m6)))"
    for f1 d1 f2 d2 n2 q p n and result :: ptr and m3 :: "'a machine"
    apply (rule follows_and_then[OF reloc])
    apply (rule follows_then_quiet)
     apply (rule follows_mono[OF destroy_n_follows], simp)
    apply simp
    done
  have c: "(size_m v = Capacity v) = True" using full by simp
  show ?thesis
    unfolding Emplace_def
    apply (simp only: prod.case pd option.case c if_True)
    apply (rule follows_then_quiet)
     apply (rule follows_within)
     apply (rule follows_quiet_then[OF RawMemory_ctor_quiet])
     apply (rule follows_then_quiet)
      apply (rule follows_on_unwind)
       apply (rule follows_quiet_then[OF RawMemory_plus_quiet])
       apply (rule follows_after_placement_new)
       apply (rule body[simplified])
      apply (rule RawMemory_dtor_quiet)
     apply (rule release_quiet)
    apply (simp split: prod.splits)
    done
qed

subsection \<open>C8: the constructor used for relocation\<close>

lemma relocation_kinds_allowed:
  "{relocation_ctor E, Dtor} \<subseteq> - {excluded_ctor E}"
  "{relocation_ctor E, Dtor, Value_init} \<subseteq> - {excluded_ctor E}"
  by (auto simp: relocation_ctor_def excluded_ctor_def split: if_splits)

lemma Emplace_relocates:
  assumes full: "size_m v = Capacity v"
  shows "follows snd 1 {relocation_ctor E, Dtor} (relocation_ctor E) (size_m v) m
           (Emplace E pos call (v, m))"
proof (cases "ptr_diff pos (Vector_begin v)")
  case None
  then show ?thesis by (simp add: Emplace_def follows_def)
next
  case (Some offset)
  note F = Emplace_follows[OF full Some, of E m call]
  show ?thesis
  proof (cases "Emplace E pos call (v, m)")
    case (Ret r s)
    obtain v' m' where s: "s = (v', m')" by (cases s)
    from Emplace_Ret_grown[OF full Ret[unfolded s]] Some have "offset \<le> size_m v" by simp
    then have "offset + size_t_minus (size_m v) offset = size_m v"
      by (simp add: size_t_minus_def)
    then show ?thesis using F by simp
  next
    case (Thrown e s)
    then show ?thesis using F by (simp add: follows_def)
  qed (simp_all add: follows_def)
qed

text \<open>
  C8: \<open>Reserve\<close>, \<open>Resize\<close>, and \<open>EmplaceBack\<close> and \<open>Emplace\<close> called with
  \<open>size = capacity\<close>, construct no object with the constructor that the traits of \<open>T\<close>
  exclude (the copy constructor when \<open>T\<close> is nothrow move constructible or not copy
  constructible, the move constructor otherwise), whether they return or throw; the only
  construction set apart is that of the new element of \<open>EmplaceBack\<close> and \<open>Emplace\<close>, the
  first operation they record. When they return after a relocation, exactly \<open>size\<close> objects
  have been constructed with the selected constructor.
\<close>

theorem relocation_follows_traits:
  "relocates E 0 (if Capacity v < n then size_m v else 0) m (Reserve E n (v, m)) \<and>
   relocates E 0 (if size_m v < n \<and> Capacity v < n then size_m v else 0) m (Resize E n (v, m)) \<and>
   (size_m v = Capacity v \<longrightarrow>
      relocates E 1 (size_m v) m (EmplaceBack E call (v, m)) \<and>
      relocates E 1 (size_m v) m (Emplace E pos call (v, m)))"
proof (intro conjI impI)
  have c: "(if Capacity v < n then size_m v else 0) =
           (if n \<le> RawMemory_Capacity (data_m v) then 0 else size_m v)"
    by (simp add: Capacity_def)
  show "relocates E 0 (if Capacity v < n then size_m v else 0) m (Reserve E n (v, m))"
    unfolding relocates_def c
    by (rule follows_mono[OF Reserve_follows relocation_kinds_allowed(1)])
next
  have c: "(if size_m v < n \<and> Capacity v < n then size_m v else 0) =
           (if size_m v < n \<and> \<not> n \<le> RawMemory_Capacity (data_m v) then size_m v else 0)"
    by (simp add: Capacity_def not_le)
  show "relocates E 0 (if size_m v < n \<and> Capacity v < n then size_m v else 0) m
          (Resize E n (v, m))"
    unfolding relocates_def c
    by (rule follows_mono[OF Resize_follows relocation_kinds_allowed(2)])
next
  assume "size_m v = Capacity v"
  then show "relocates E 1 (size_m v) m (EmplaceBack E call (v, m))"
    unfolding relocates_def
    by (rule follows_mono[OF EmplaceBack_follows relocation_kinds_allowed(1)])
next
  assume "size_m v = Capacity v"
  then show "relocates E 1 (size_m v) m (Emplace E pos call (v, m))"
    unfolding relocates_def
    by (rule follows_mono[OF Emplace_relocates relocation_kinds_allowed(1)])
qed

theorem relocation_follows_traits_witness:
  "size_m (fst (two_of_two (1::int) 2)) = Capacity (fst (two_of_two (1::int) 2)) \<and>
   relocation_ctor T_int = Move_ctor \<and> excluded_ctor T_int = Copy_ctor \<and>
   relocation_ctor T_copied = Copy_ctor \<and> excluded_ctor T_copied = Move_ctor \<and>
   relocates T_int 0 2 (snd (two_of_two 1 2)) (Reserve T_int 4 (two_of_two 1 2)) \<and>
   relocates T_copied 0 2 (snd (two_of_two 1 2)) (Resize T_copied 3 (two_of_two 1 2)) \<and>
   relocates T_int 1 2 (snd (two_of_two 1 2))
     (EmplaceBack T_int (forwarded T_int (Lvalue 3)) (two_of_two 1 2)) \<and>
   relocates T_copied 1 2 (snd (two_of_two 1 2))
     (Emplace T_copied (Vector_begin (fst (two_of_two (1::int) 2))) (forwarded T_copied (Rvalue 3))
        (two_of_two 1 2)) \<and>
   (case Reserve T_int 4 (two_of_two 1 2) of
      Ret r s \<Rightarrow> events_since (snd (two_of_two 1 2)) (snd s) =
        [Done Move_ctor 1, Done Move_ctor 2, Done Dtor 1, Done Dtor 2]
    | _ \<Rightarrow> False) \<and>
   (case Resize T_copied 3 (two_of_two 1 2) of
      Ret r s \<Rightarrow> events_since (snd (two_of_two 1 2)) (snd s) =
        [Done Copy_ctor 1, Done Copy_ctor 2, Done Dtor 1, Done Dtor 2, Done Value_init 0]
    | _ \<Rightarrow> False) \<and>
   (case EmplaceBack T_int (forwarded T_int (Lvalue 3)) (two_of_two 1 2) of
      Ret r s \<Rightarrow> events_since (snd (two_of_two 1 2)) (snd s) =
        [Done Copy_ctor 3, Done Move_ctor 1, Done Move_ctor 2, Done Dtor 1, Done Dtor 2]
    | _ \<Rightarrow> False) \<and>
   (case Emplace T_copied (Vector_begin (fst (two_of_two (1::int) 2))) (forwarded T_copied (Rvalue 3))
        (two_of_two 1 2) of
      Ret r s \<Rightarrow> events_since (snd (two_of_two 1 2)) (snd s) =
        [Done Move_ctor 3, Done Copy_ctor 1, Done Copy_ctor 2, Done Dtor 1, Done Dtor 2]
    | _ \<Rightarrow> False)"
proof -
  have full: "size_m (fst (two_of_two (1::int) 2)) = Capacity (fst (two_of_two (1::int) 2))"
    by (simp add: two_of_two_def Capacity_def RawMemory_Capacity_def)
  have sz: "size_m (fst (two_of_two (1::int) 2)) = 2" "Capacity (fst (two_of_two (1::int) 2)) = 2"
    by (simp_all add: two_of_two_def Capacity_def RawMemory_Capacity_def)
  have t: "two_of_two (1::int) 2 = (fst (two_of_two (1::int) 2), snd (two_of_two (1::int) 2))"
    by simp
  have k: "relocation_ctor T_int = Move_ctor" "excluded_ctor T_int = Copy_ctor"
    "relocation_ctor T_copied = Copy_ctor" "excluded_ctor T_copied = Move_ctor"
    by (simp_all add: relocation_ctor_def excluded_ctor_def T_int_def T_copied_def)
  have e1: "(case Reserve T_int 4 (two_of_two 1 2) of
      Ret r s \<Rightarrow> events_since (snd (two_of_two 1 2)) (snd s) =
        [Done Move_ctor 1, Done Move_ctor 2, Done Dtor 1, Done Dtor 2]
    | _ \<Rightarrow> False)"
    by (simp add: run_defs loops_numeral T_int_def two_of_two_def events_since_def)
  have e2: "(case Resize T_copied 3 (two_of_two 1 2) of
      Ret r s \<Rightarrow> events_since (snd (two_of_two 1 2)) (snd s) =
        [Done Copy_ctor 1, Done Copy_ctor 2, Done Dtor 1, Done Dtor 2, Done Value_init 0]
    | _ \<Rightarrow> False)"
    by (simp add: Resize_def run_defs loops_numeral T_copied_def two_of_two_def events_since_def)
  have e3: "(case EmplaceBack T_int (forwarded T_int (Lvalue 3)) (two_of_two 1 2) of
      Ret r s \<Rightarrow> events_since (snd (two_of_two 1 2)) (snd s) =
        [Done Copy_ctor 3, Done Move_ctor 1, Done Move_ctor 2, Done Dtor 1, Done Dtor 2]
    | _ \<Rightarrow> False)"
    by (simp add: run_defs loops_numeral T_int_def two_of_two_def events_since_def)
  have e4: "(case Emplace T_copied (Vector_begin (fst (two_of_two (1::int) 2)))
        (forwarded T_copied (Rvalue 3)) (two_of_two 1 2) of
      Ret r s \<Rightarrow> events_since (snd (two_of_two 1 2)) (snd s) =
        [Done Move_ctor 3, Done Copy_ctor 1, Done Copy_ctor 2, Done Dtor 1, Done Dtor 2]
    | _ \<Rightarrow> False)"
    by (simp add: run_defs loops_numeral T_copied_def two_of_two_def events_since_def)
  from relocation_follows_traits[of T_int "fst (two_of_two (1::int) 2)" 4
         "snd (two_of_two (1::int) 2)" "forwarded T_int (Lvalue 3)"]
  have a: "relocates T_int 0 2 (snd (two_of_two 1 2)) (Reserve T_int 4 (two_of_two 1 2))"
    "relocates T_int 1 2 (snd (two_of_two 1 2))
       (EmplaceBack T_int (forwarded T_int (Lvalue 3)) (two_of_two 1 2))"
    using full sz by simp_all
  from relocation_follows_traits[of T_copied "fst (two_of_two (1::int) 2)" 3
         "snd (two_of_two (1::int) 2)" "forwarded T_copied (Rvalue 3)"
         "Vector_begin (fst (two_of_two (1::int) 2))"]
  have b: "relocates T_copied 0 2 (snd (two_of_two 1 2)) (Resize T_copied 3 (two_of_two 1 2))"
    "relocates T_copied 1 2 (snd (two_of_two 1 2))
       (Emplace T_copied (Vector_begin (fst (two_of_two (1::int) 2))) (forwarded T_copied (Rvalue 3))
          (two_of_two 1 2))"
    using full sz by simp_all
  show ?thesis using full k a b e1 e2 e3 e4 by simp
qed

end
